theory Spec2Isabelle
  imports Complex_Main "HOL-Library.AList" "HOL-Library.Multiset" "HOL-Library.Product_Lexorder"
    "HOL-Library.Option_ord"
begin

unbundle bit_operations_syntax

section \<open>Python values used by memoryman.py\<close>

text \<open>
  Process ids, sizes, addresses and frame numbers are Python integers (\<open>int\<close>), \<open>None\<close>
  is \<open>None\<close> of an option type, \<open>//\<close> is floor division (\<open>div\<close> on \<open>int\<close>) and raises
  \<open>ZeroDivisionError\<close> on a zero divisor.  Comparing \<open>None\<close> with an integer by \<open><\<close>
  raises \<open>TypeError\<close>.  The parameter \<open>size\<close> of the source is written \<open>rsize\<close>
  (\<open>size\<close> is a constant of HOL).
\<close>

datatype py_error = ZeroDivisionError | TypeError

text \<open>\<open>range(n)\<close>: empty when \<open>n \<le> 0\<close>.\<close>

definition py_range :: "int \<Rightarrow> nat list" where
  "py_range n = [0..<nat n]"

text \<open>\<open>xs[a:b]\<close>: a negative bound counts from the end, both bounds are clamped.\<close>

definition py_slice :: "'a list \<Rightarrow> int \<Rightarrow> int \<Rightarrow> 'a list" where
  "py_slice xs a b =
     (let n = int (length xs);
          lo = (if a < 0 then max (a + n) 0 else min a n);
          hi = (if b < 0 then max (b + n) 0 else min b n)
      in take (nat (hi - lo)) (drop (nat lo) xs))"

section \<open>FixedSizedPartitioning\<close>

record fixed_state =
  fx_memory_size :: int
  fx_partition_size :: int
  fx_partitions :: "int option list"

definition fixed_init :: "int \<Rightarrow> int \<Rightarrow> py_error + fixed_state" where
  "fixed_init memory_size partition_size =
     (if partition_size = 0 then Inl ZeroDivisionError
      else Inr \<lparr>fx_memory_size = memory_size, fx_partition_size = partition_size,
                fx_partitions = replicate (nat (memory_size div partition_size)) None\<rparr>)"

text \<open>
  The window test of \<open>allocate\<close>: \<open>all(p is None for p in self.partitions[i:i+n])\<close>.
\<close>

definition window_all_free :: "int option list \<Rightarrow> int \<Rightarrow> nat \<Rightarrow> bool" where
  "window_all_free ps partitions_needed i =
     list_all (\<lambda>p. p = None) (py_slice ps (int i) (int i + partitions_needed))"

text \<open>
  The inner loop \<open>for j in range(n): self.partitions[i + j] = process_id\<close>.  It runs only
  after the window at \<open>i\<close> was accepted, where every \<open>i + j\<close> is a valid index.
\<close>

definition tag_window :: "int option list \<Rightarrow> nat \<Rightarrow> int \<Rightarrow> int \<Rightarrow> int option list" where
  "tag_window ps i partitions_needed process_id =
     fold (\<lambda>j qs. qs[i + j := Some process_id]) (py_range partitions_needed) ps"

definition fixed_allocate :: "fixed_state \<Rightarrow> int \<Rightarrow> int \<Rightarrow> py_error + (bool \<times> fixed_state)" where
  "fixed_allocate s process_id rsize =
     (if fx_partition_size s = 0 then Inl ZeroDivisionError
      else
        let partitions_needed = (rsize + fx_partition_size s - 1) div fx_partition_size s
        in case find (window_all_free (fx_partitions s) partitions_needed)
                  (py_range (int (length (fx_partitions s)) - partitions_needed + 1)) of
             Some i \<Rightarrow>
               Inr (True, s\<lparr>fx_partitions :=
                              tag_window (fx_partitions s) i partitions_needed process_id\<rparr>)
           | None \<Rightarrow> Inr (False, s))"

definition fixed_deallocate :: "fixed_state \<Rightarrow> int \<Rightarrow> fixed_state" where
  "fixed_deallocate s process_id =
     s\<lparr>fx_partitions :=
         fold (\<lambda>i ps. if ps ! i = Some process_id then ps[i := None] else ps)
           [0..<length (fx_partitions s)] (fx_partitions s)\<rparr>"

section \<open>The first-fit, best-fit and worst-fit scans\<close>

text \<open>
  \<open>_find_partition\<close> and \<open>_find_block\<close> run the same three loops over the indices
  \<open>0..n-1\<close>; \<open>ok i\<close> is the test "unit \<open>i\<close> is free and its size is at least the request"
  and \<open>sz i\<close> the size of unit \<open>i\<close>.  The pair carried by the best-fit and worst-fit loops
  is \<open>(best_index, best_size)\<close>.
\<close>

definition first_fit_scan :: "(nat \<Rightarrow> bool) \<Rightarrow> nat \<Rightarrow> nat option" where
  "first_fit_scan ok n = find ok [0..<n]"

definition best_fit_step ::
  "(nat \<Rightarrow> bool) \<Rightarrow> (nat \<Rightarrow> int) \<Rightarrow> nat \<Rightarrow> nat option \<times> int option \<Rightarrow> nat option \<times> int option" where
  "best_fit_step ok sz i acc =
     (if ok i then
        (if (case snd acc of None \<Rightarrow> True | Some best_size \<Rightarrow> sz i < best_size)
         then (Some i, Some (sz i)) else acc)
      else acc)"

definition best_fit_scan :: "(nat \<Rightarrow> bool) \<Rightarrow> (nat \<Rightarrow> int) \<Rightarrow> nat \<Rightarrow> nat option" where
  "best_fit_scan ok sz n = fst (fold (best_fit_step ok sz) [0..<n] (None, None))"

definition worst_fit_step ::
  "(nat \<Rightarrow> bool) \<Rightarrow> (nat \<Rightarrow> int) \<Rightarrow> nat \<Rightarrow> nat option \<times> int option \<Rightarrow> nat option \<times> int option" where
  "worst_fit_step ok sz i acc =
     (if ok i then
        (if (case snd acc of None \<Rightarrow> True | Some worst_size \<Rightarrow> sz i > worst_size)
         then (Some i, Some (sz i)) else acc)
      else acc)"

definition worst_fit_scan :: "(nat \<Rightarrow> bool) \<Rightarrow> (nat \<Rightarrow> int) \<Rightarrow> nat \<Rightarrow> nat option" where
  "worst_fit_scan ok sz n = fst (fold (worst_fit_step ok sz) [0..<n] (None, None))"

definition fit_scan :: "string \<Rightarrow> (nat \<Rightarrow> bool) \<Rightarrow> (nat \<Rightarrow> int) \<Rightarrow> nat \<Rightarrow> nat option" where
  "fit_scan strategy ok sz n =
     (if strategy = ''first_fit'' then first_fit_scan ok n
      else if strategy = ''best_fit'' then best_fit_scan ok sz n
      else if strategy = ''worst_fit'' then worst_fit_scan ok sz n
      else None)"

section \<open>UnequalSizedPartitioning\<close>

record unequal_state =
  uq_partitions :: "int list"
  uq_allocated :: "int option list"

definition unequal_init :: "int list \<Rightarrow> unequal_state" where
  "unequal_init partitions =
     \<lparr>uq_partitions = partitions, uq_allocated = replicate (length partitions) None\<rparr>"

definition find_partition :: "unequal_state \<Rightarrow> int \<Rightarrow> string \<Rightarrow> nat option" where
  "find_partition s rsize strategy =
     fit_scan strategy
       (\<lambda>i. uq_allocated s ! i = None \<and> uq_partitions s ! i \<ge> rsize)
       (\<lambda>i. uq_partitions s ! i) (length (uq_partitions s))"

definition unequal_allocate :: "unequal_state \<Rightarrow> int \<Rightarrow> int \<Rightarrow> string \<Rightarrow> bool \<times> unequal_state" where
  "unequal_allocate s process_id rsize strategy =
     (case find_partition s rsize strategy of
        Some index \<Rightarrow> (True, s\<lparr>uq_allocated := (uq_allocated s)[index := Some process_id]\<rparr>)
      | None \<Rightarrow> (False, s))"

definition unequal_deallocate :: "unequal_state \<Rightarrow> int \<Rightarrow> unequal_state" where
  "unequal_deallocate s process_id =
     s\<lparr>uq_allocated :=
         fold (\<lambda>i al. if al ! i = Some process_id then al[i := None] else al)
           [0..<length (uq_allocated s)] (uq_allocated s)\<rparr>"

section \<open>DynamicMemoryAllocation\<close>

text \<open>A block is the tuple \<open>(start, size, process_id)\<close>.\<close>

type_synonym block = "int \<times> int \<times> int option"

definition blk_start :: "block \<Rightarrow> int" where
  "blk_start b = fst b"

definition blk_size :: "block \<Rightarrow> int" where
  "blk_size b = fst (snd b)"

definition blk_pid :: "block \<Rightarrow> int option" where
  "blk_pid b = snd (snd b)"

record dynamic_state =
  dy_memory_size :: int
  dy_memory :: "block list"

definition dynamic_init :: "int \<Rightarrow> dynamic_state" where
  "dynamic_init memory_size =
     \<lparr>dy_memory_size = memory_size, dy_memory = [(0, memory_size, None)]\<rparr>"

text \<open>
  \<open>list.sort()\<close> and \<open>sorted()\<close> on the tuples compare lexicographically.  Two tuples with
  the same start and size are told apart by their process ids; when one of the two is
  \<open>None\<close> and the other is not, \<open><\<close> raises \<open>TypeError\<close>, and a comparison sort has to
  compare such a pair.  Everywhere else the order is the lexicographic order of the
  triples (two \<open>None\<close> are equal).
\<close>

definition sort_conflict :: "block list \<Rightarrow> bool" where
  "sort_conflict bs =
     (\<exists>b \<in> set bs. \<exists>c \<in> set bs.
        blk_start b = blk_start c \<and> blk_size b = blk_size c \<and> blk_pid b = None \<and> blk_pid c \<noteq> None)"

definition py_sorted :: "block list \<Rightarrow> py_error + block list" where
  "py_sorted bs = (if sort_conflict bs then Inl TypeError else Inr (sort bs))"

definition find_block :: "dynamic_state \<Rightarrow> int \<Rightarrow> string \<Rightarrow> nat option" where
  "find_block s rsize strategy =
     fit_scan strategy
       (\<lambda>i. blk_pid (dy_memory s ! i) = None \<and> blk_size (dy_memory s ! i) \<ge> rsize)
       (\<lambda>i. blk_size (dy_memory s ! i)) (length (dy_memory s))"

text \<open>\<open>self.memory.pop(index)\<close> for a valid index.\<close>

definition list_pop :: "'a list \<Rightarrow> nat \<Rightarrow> 'a list" where
  "list_pop xs i = take i xs @ drop (Suc i) xs"

definition dynamic_allocate ::
  "dynamic_state \<Rightarrow> int \<Rightarrow> int \<Rightarrow> string \<Rightarrow> py_error + (bool \<times> dynamic_state)" where
  "dynamic_allocate s process_id rsize strategy =
     (case find_block s rsize strategy of
        Some index \<Rightarrow>
          (let start = blk_start (dy_memory s ! index);
               block_size = blk_size (dy_memory s ! index);
               m1 = (dy_memory s)[index := (start + rsize, block_size - rsize, None)];
               m2 = (if blk_size (m1 ! index) = 0 then list_pop m1 index else m1);
               m3 = m2 @ [(start, rsize, Some process_id)]
           in case py_sorted m3 of
                Inl e \<Rightarrow> Inl e
              | Inr m4 \<Rightarrow> Inr (True, s\<lparr>dy_memory := m4\<rparr>))
      | None \<Rightarrow> Inr (False, s))"

text \<open>One iteration of the loop of \<open>merge_free_blocks\<close> on \<open>merged_memory\<close>.\<close>

definition merge_step :: "block \<Rightarrow> block list \<Rightarrow> block list" where
  "merge_step block merged_memory =
     (if merged_memory \<noteq> [] \<and> blk_pid (last merged_memory) = None \<and> blk_pid block = None
      then butlast merged_memory @
             [(blk_start (last merged_memory), blk_size (last merged_memory) + blk_size block, None)]
      else merged_memory @ [block])"

definition merge_free_blocks :: "dynamic_state \<Rightarrow> py_error + dynamic_state" where
  "merge_free_blocks s =
     (case py_sorted (dy_memory s) of
        Inl e \<Rightarrow> Inl e
      | Inr sorted_memory \<Rightarrow> Inr (s\<lparr>dy_memory := fold merge_step sorted_memory []\<rparr>))"

definition relabel :: "int \<Rightarrow> block \<Rightarrow> block" where
  "relabel process_id b =
     (if blk_pid b \<noteq> Some process_id then (blk_start b, blk_size b, blk_pid b)
      else (blk_start b, blk_size b, None))"

definition dynamic_deallocate :: "dynamic_state \<Rightarrow> int \<Rightarrow> py_error + dynamic_state" where
  "dynamic_deallocate s process_id =
     merge_free_blocks (s\<lparr>dy_memory := map (relabel process_id) (dy_memory s)\<rparr>)"

datatype dynamic_op = DAllocate int int string | DDeallocate int

fun dynamic_step :: "dynamic_state \<Rightarrow> dynamic_op \<Rightarrow> py_error + dynamic_state" where
  "dynamic_step s (DAllocate process_id rsize strategy) =
     (case dynamic_allocate s process_id rsize strategy of
        Inl e \<Rightarrow> Inl e
      | Inr r \<Rightarrow> Inr (snd r))"
| "dynamic_step s (DDeallocate process_id) = dynamic_deallocate s process_id"

fun dynamic_run :: "dynamic_state \<Rightarrow> dynamic_op list \<Rightarrow> py_error + dynamic_state" where
  "dynamic_run s [] = Inr s"
| "dynamic_run s (op # ops) =
     (case dynamic_step s op of Inl e \<Rightarrow> Inl e | Inr s' \<Rightarrow> dynamic_run s' ops)"

text \<open>A request of a positive size; a \<open>deallocate\<close> request names no size.\<close>

fun positive_request :: "dynamic_op \<Rightarrow> bool" where
  "positive_request (DAllocate process_id rsize strategy) = (0 < rsize)"
| "positive_request (DDeallocate process_id) = True"

section \<open>BuddySystem\<close>

text \<open>
  \<open>free_blocks\<close> is a dict from block size to the list of free addresses of that size.
  It is an association list in insertion order with one entry per key:
  \<open>AList.update\<close> overwrites a key in place or adds it last, as a dict does.
\<close>

record buddy_state =
  bd_size :: int
  bd_free_blocks :: "(int \<times> int list) list"

definition buddy_init :: "int \<Rightarrow> buddy_state" where
  "buddy_init msize = \<lparr>bd_size = msize, bd_free_blocks = [(msize, [0])]\<rparr>"

text \<open>\<open>int.bit_length()\<close>: the number of bits of the absolute value.\<close>

fun bit_length_nat :: "nat \<Rightarrow> nat" where
  "bit_length_nat n = (if n = 0 then 0 else Suc (bit_length_nat (n div 2)))"

definition bit_length :: "int \<Rightarrow> nat" where
  "bit_length x = bit_length_nat (nat \<bar>x\<bar>)"

definition next_power_of_two :: "int \<Rightarrow> int" where
  "next_power_of_two x = 2 ^ bit_length (x - 1)"

text \<open>\<open>self.free_blocks.get(k, [])\<close>; it is \<open>self.free_blocks[k]\<close> where the key is present.\<close>

definition bucket :: "(int \<times> int list) list \<Rightarrow> int \<Rightarrow> int list" where
  "bucket fb k = (case map_of fb k of None \<Rightarrow> [] | Some addresses \<Rightarrow> addresses)"

text \<open>\<open>self.free_blocks.setdefault(k, []).append(a)\<close>.\<close>

definition setdefault_append :: "(int \<times> int list) list \<Rightarrow> int \<Rightarrow> int \<Rightarrow> (int \<times> int list) list" where
  "setdefault_append fb k a = AList.update k (bucket fb k @ [a]) fb"

text \<open>
  The splitting loop \<open>while current_size > size\<close> of \<open>allocate\<close>.  Taken alone it does
  not end for every pair of integers (\<open>0 // 2 = 0\<close>), so not returning is the value \<open>None\<close>.
\<close>

partial_function (option) split_loop ::
  "(int \<times> int list) list \<Rightarrow> int \<Rightarrow> int \<Rightarrow> int \<Rightarrow> (int \<times> int list) list option" where
  "split_loop fb address current_size rsize =
     (if current_size > rsize
      then split_loop (setdefault_append fb (current_size div 2) (address + current_size div 2))
             address (current_size div 2) rsize
      else Some fb)"

text \<open>
  \<open>allocate\<close> returns the address or \<open>None\<close>; the outer \<open>option\<close> is \<open>None\<close> when the
  call does not return.
\<close>

definition buddy_allocate :: "buddy_state \<Rightarrow> int \<Rightarrow> int \<Rightarrow> (int option \<times> buddy_state) option" where
  "buddy_allocate s process_id rsize0 =
     (let rsize = next_power_of_two rsize0; fb = bd_free_blocks s
      in case find (\<lambda>current_size. current_size \<ge> rsize \<and> bucket fb current_size \<noteq> [])
                (sort (map fst fb)) of
           None \<Rightarrow> Some (None, s)
         | Some current_size \<Rightarrow>
             (let address = hd (bucket fb current_size);
                  fb1 = AList.update current_size (tl (bucket fb current_size)) fb;
                  fb2 = (if bucket fb1 current_size = [] then AList.delete current_size fb1 else fb1)
              in case split_loop fb2 address current_size rsize of
                   None \<Rightarrow> None
                 | Some fb3 \<Rightarrow> Some (Some address, s\<lparr>bd_free_blocks := fb3\<rparr>)))"

definition total_free :: "(int \<times> int list) list \<Rightarrow> nat" where
  "total_free fb = sum_list (map (\<lambda>kv. length (snd kv)) fb)"

text \<open>
  The loop \<open>while size <= self.size\<close> of \<open>deallocate\<close>.  Every iteration that goes on
  removes one address from a bucket, so the loop ends for all integers.
\<close>

function dealloc_loop ::
  "int \<Rightarrow> (int \<times> int list) list \<Rightarrow> int \<Rightarrow> int \<Rightarrow> (int \<times> int list) list" where
  "dealloc_loop msize fb address rsize =
     (if rsize \<le> msize then
        (if (address XOR rsize) \<in> set (bucket fb rsize)
         then dealloc_loop msize
                (AList.update rsize (remove1 (address XOR rsize) (bucket fb rsize)) fb)
                (min address (address XOR rsize)) (rsize * 2)
         else setdefault_append fb rsize address)
      else fb)"
  by pat_completeness auto
termination
proof (relation "measure (\<lambda>(msize, fb, address, rsize). total_free fb)")
  show "wf (measure (\<lambda>(msize, fb, address, rsize). total_free fb))"
    by simp
next
  fix msize :: int and fb :: "(int \<times> int list) list" and address rsize :: int
  assume "address XOR rsize \<in> set (bucket fb rsize)"
  then have "total_free (AList.update rsize (remove1 (address XOR rsize) (bucket fb rsize)) fb)
               < total_free fb"
  proof (induction fb)
    case Nil
    then show ?case by (simp add: bucket_def)
  next
    case (Cons kv fb)
    show ?case
    proof (cases "fst kv = rsize")
      case True
      with Cons.prems have "address XOR rsize \<in> set (snd kv)"
        by (cases kv) (simp add: bucket_def)
      then have "length (remove1 (address XOR rsize) (snd kv)) < length (snd kv)"
        using length_pos_if_in_set [of "address XOR rsize" "snd kv"]
        by (simp add: length_remove1)
      with True show ?thesis
        by (cases kv) (simp add: bucket_def total_free_def)
    next
      case False
      with Cons.prems have "address XOR rsize \<in> set (bucket fb rsize)"
        by (cases kv) (simp add: bucket_def)
      from Cons.IH [OF this] False show ?thesis
        by (cases kv) (simp add: bucket_def total_free_def)
    qed
  qed
  then show "((msize, AList.update rsize (remove1 (address XOR rsize) (bucket fb rsize)) fb,
               min address (address XOR rsize), rsize * 2),
              (msize, fb, address, rsize))
             \<in> measure (\<lambda>(msize, fb, address, rsize). total_free fb)"
    by simp
qed

definition buddy_deallocate :: "buddy_state \<Rightarrow> int \<Rightarrow> int \<Rightarrow> buddy_state" where
  "buddy_deallocate s address rsize0 =
     s\<lparr>bd_free_blocks :=
         dealloc_loop (bd_size s) (bd_free_blocks s) address (next_power_of_two rsize0)\<rparr>"

section \<open>Paging\<close>

text \<open>
  \<open>page_table\<close> is a dict from \<open>(process_id, page)\<close> to the frame number, kept as an
  association list in insertion order.
\<close>

record paging_state =
  pg_memory_size :: int
  pg_page_size :: int
  pg_frames :: int
  pg_page_table :: "((int \<times> int) \<times> int) list"

definition paging_init :: "int \<Rightarrow> int \<Rightarrow> py_error + paging_state" where
  "paging_init memory_size page_size =
     (if page_size = 0 then Inl ZeroDivisionError
      else Inr \<lparr>pg_memory_size = memory_size, pg_page_size = page_size,
                pg_frames = memory_size div page_size, pg_page_table = []\<rparr>)"

text \<open>
  The loop collecting \<open>allocated_frames\<close>, with its \<open>break\<close>; \<open>vals\<close> is
  \<open>self.page_table.values()\<close>.
\<close>

fun collect_frames :: "int list \<Rightarrow> int list \<Rightarrow> int \<Rightarrow> int list \<Rightarrow> int list" where
  "collect_frames [] vals pages_needed allocated_frames = allocated_frames"
| "collect_frames (frame # rest) vals pages_needed allocated_frames =
     (if frame \<notin> set vals then
        (if int (length (allocated_frames @ [frame])) = pages_needed
         then allocated_frames @ [frame]
         else collect_frames rest vals pages_needed (allocated_frames @ [frame]))
      else collect_frames rest vals pages_needed allocated_frames)"

text \<open>
  The loop \<open>for page in range(pages_needed): self.page_table[(process_id, page)] =
  allocated_frames[page]\<close>; it runs only when \<open>allocated_frames\<close> has at least
  \<open>pages_needed\<close> elements.
\<close>

definition assign_pages ::
  "((int \<times> int) \<times> int) list \<Rightarrow> int \<Rightarrow> int \<Rightarrow> int list \<Rightarrow> ((int \<times> int) \<times> int) list" where
  "assign_pages pt process_id pages_needed allocated_frames =
     fold (\<lambda>page t. AList.update (process_id, int page) (allocated_frames ! page) t)
       (py_range pages_needed) pt"

definition paging_allocate :: "paging_state \<Rightarrow> int \<Rightarrow> int \<Rightarrow> py_error + (bool \<times> paging_state)" where
  "paging_allocate s process_id process_size =
     (if pg_page_size s = 0 then Inl ZeroDivisionError
      else
        let pages_needed = (process_size + pg_page_size s - 1) div pg_page_size s;
            allocated_frames =
              collect_frames (map int (py_range (pg_frames s))) (map snd (pg_page_table s))
                pages_needed []
        in if int (length allocated_frames) < pages_needed then Inr (False, s)
           else Inr (True, s\<lparr>pg_page_table :=
                               assign_pages (pg_page_table s) process_id pages_needed
                                 allocated_frames\<rparr>))"

definition paging_deallocate :: "paging_state \<Rightarrow> int \<Rightarrow> paging_state" where
  "paging_deallocate s process_id =
     s\<lparr>pg_page_table :=
         fold (\<lambda>key t. if fst key = process_id then AList.delete key t else t)
           (map fst (pg_page_table s)) (pg_page_table s)\<rparr>"

datatype paging_op = PAllocate int int | PDeallocate int

fun paging_step :: "paging_state \<Rightarrow> paging_op \<Rightarrow> py_error + paging_state" where
  "paging_step s (PAllocate process_id process_size) =
     (case paging_allocate s process_id process_size of
        Inl e \<Rightarrow> Inl e
      | Inr r \<Rightarrow> Inr (snd r))"
| "paging_step s (PDeallocate process_id) = Inr (paging_deallocate s process_id)"

fun paging_run :: "paging_state \<Rightarrow> paging_op list \<Rightarrow> py_error + paging_state" where
  "paging_run s [] = Inr s"
| "paging_run s (op # ops) =
     (case paging_step s op of Inl e \<Rightarrow> Inl e | Inr s' \<Rightarrow> paging_run s' ops)"

declare split_loop.simps [code]
declare bit_length_nat.simps [simp del]
declare dealloc_loop.simps [simp del]

section \<open>Notions of the specification\<close>

text \<open>
  The definitions of this section follow the words of the specification; the theorems
  compare them with the functions above.
\<close>

text \<open>
  A window of \<open>n\<close> consecutive free partitions starting at index \<open>i\<close>, and the
  partition list with that window tagged.
\<close>

definition spec_free_window :: "int option list \<Rightarrow> nat \<Rightarrow> int \<Rightarrow> bool" where
  "spec_free_window ps i n =
     (int i + n \<le> int (length ps) \<and> list_all (\<lambda>j. ps ! (i + j) = None) [0..<nat n])"

definition spec_tag_window :: "int option list \<Rightarrow> nat \<Rightarrow> int \<Rightarrow> int \<Rightarrow> int option list" where
  "spec_tag_window ps i n process_id =
     map (\<lambda>k. if int i \<le> int k \<and> int k < int i + n then Some process_id else ps ! k)
       [0..<length ps]"

abbreviation fixed100 :: "int option list \<Rightarrow> fixed_state" where
  "fixed100 ps \<equiv> \<lparr>fx_memory_size = 100, fx_partition_size = 10, fx_partitions = ps\<rparr>"

text \<open>
  A free partition large enough for the request, and the best fit among them: one of
  the smallest size, the lowest index among those of that size.
\<close>

definition spec_candidate :: "unequal_state \<Rightarrow> int \<Rightarrow> nat \<Rightarrow> bool" where
  "spec_candidate s rsize i =
     (i < length (uq_partitions s) \<and> uq_allocated s ! i = None \<and> rsize \<le> uq_partitions s ! i)"

definition spec_best_fit :: "unequal_state \<Rightarrow> int \<Rightarrow> nat \<Rightarrow> bool" where
  "spec_best_fit s rsize i =
     (spec_candidate s rsize i \<and>
      list_all (\<lambda>j. spec_candidate s rsize j \<longrightarrow>
                  uq_partitions s ! i < uq_partitions s ! j \<or>
                  (uq_partitions s ! i = uq_partitions s ! j \<and> i \<le> j))
        [0..<length (uq_partitions s)])"


text \<open>
  The frames of \<open>[0, totalFrames)\<close> that are not a value of the page table, in ascending
  order.
\<close>

definition spec_free_frames :: "paging_state \<Rightarrow> int list" where
  "spec_free_frames s =
     filter (\<lambda>frame. frame \<notin> set (map snd (pg_page_table s))) (map int [0..<nat (pg_frames s)])"


text \<open>
  The page table is a well-formed dict (one entry per key) and no frame is the value of
  two entries.
\<close>

definition paging_wf :: "paging_state \<Rightarrow> bool" where
  "paging_wf s =
     (pg_page_size s \<noteq> 0 \<and> distinct (map fst (pg_page_table s)) \<and>
      distinct (map snd (pg_page_table s)))"


abbreviation paging40 :: "((int \<times> int) \<times> int) list \<Rightarrow> paging_state" where
  "paging40 pt \<equiv> \<lparr>pg_memory_size = 40, pg_page_size = 10, pg_frames = 4, pg_page_table = pt\<rparr>"

text \<open>
  The block list tiles memory when each block starts where the block before it ends;
  it is fully merged when no two neighbours are both free.
\<close>

definition spec_chain :: "block list \<Rightarrow> bool" where
  "spec_chain bs = successively (\<lambda>b c. blk_start c = blk_start b + blk_size b) bs"

definition spec_no_adjacent_free :: "block list \<Rightarrow> bool" where
  "spec_no_adjacent_free bs = successively (\<lambda>b c. \<not> (blk_pid b = None \<and> blk_pid c = None)) bs"


text \<open>
  The state of a DynamicMemoryAllocation between calls: a non-empty chain of blocks from
  address 0 to \<open>memory_size\<close>, fully merged, and either the single initial block or
  blocks of positive size only.
\<close>

definition dynamic_inv :: "dynamic_state \<Rightarrow> bool" where
  "dynamic_inv s =
     (dy_memory s \<noteq> [] \<and> blk_start (hd (dy_memory s)) = 0 \<and> spec_chain (dy_memory s) \<and>
      blk_start (last (dy_memory s)) + blk_size (last (dy_memory s)) = dy_memory_size s \<and>
      spec_no_adjacent_free (dy_memory s) \<and>
      (dy_memory s = [(0, dy_memory_size s, None)] \<or> list_all (\<lambda>b. 0 < blk_size b) (dy_memory s)))"


text \<open>
  Coalescing as the specification words it: every maximal run of adjacent free blocks
  becomes one free block that starts where the run starts and whose size is the sum of
  the sizes of the run; the other blocks stay.
\<close>

function spec_coalesce :: "block list \<Rightarrow> block list" where
  "spec_coalesce [] = []"
| "spec_coalesce (b # bs) =
     (if blk_pid b = None
      then (blk_start b,
            blk_size b + sum_list (map blk_size (takeWhile (\<lambda>c. blk_pid c = None) bs)), None)
           # spec_coalesce (dropWhile (\<lambda>c. blk_pid c = None) bs)
      else b # spec_coalesce bs)"
  by pat_completeness auto
termination
  by (relation "measure length") (auto simp: length_dropWhile_le less_Suc_eq_le)

declare spec_coalesce.simps(2) [simp del]


abbreviation dynamic100 :: "block list \<Rightarrow> dynamic_state" where
  "dynamic100 bs \<equiv> \<lparr>dy_memory_size = 100, dy_memory = bs\<rparr>"


abbreviation buddy64 :: "(int \<times> int list) list \<Rightarrow> buddy_state" where
  "buddy64 fb \<equiv> \<lparr>bd_size = 64, bd_free_blocks = fb\<rparr>"


text \<open>
  Merging upward on deallocation, over the contents of the buckets (the list of free
  addresses of each size, empty for a size without a bucket).  While the current size is
  within total memory: when the buddy \<open>address XOR current_size\<close> is absent from the
  bucket of the current size, the address is added to that bucket and merging stops;
  when it is present, it is removed, the address becomes the lower of the two and the
  size doubles.  When the current size exceeds total memory nothing is added.
\<close>

inductive spec_merge_up ::
  "int \<Rightarrow> (int \<Rightarrow> int list) \<Rightarrow> int \<Rightarrow> int \<Rightarrow> (int \<Rightarrow> int list) \<Rightarrow> bool" where
  absent:
    "current_size \<le> msize \<Longrightarrow> address XOR current_size \<notin> set (buckets current_size) \<Longrightarrow>
     spec_merge_up msize buckets address current_size
       (buckets(current_size := buckets current_size @ [address]))"
| merge:
    "current_size \<le> msize \<Longrightarrow> address XOR current_size \<in> set (buckets current_size) \<Longrightarrow>
     spec_merge_up msize
       (buckets(current_size := remove1 (address XOR current_size) (buckets current_size)))
       (min address (address XOR current_size)) (current_size * 2) buckets' \<Longrightarrow>
     spec_merge_up msize buckets address current_size buckets'"
| exceed:
    "msize < current_size \<Longrightarrow> spec_merge_up msize buckets address current_size buckets"


section \<open>FixedSizedPartitioning: allocation takes the leftmost free window\<close>

lemma ceil_div_formula:
  fixes x p :: int
  assumes "0 < p"
  shows "(x + p - 1) div p = \<lceil>real_of_int x / real_of_int p\<rceil>"
proof -
  have "(x + p - 1) div p = - ((- x) div p)"
  proof (cases "x mod p = 0")
    case True
    then obtain q where q: "x = p * q" by auto
    have "(p * q + (p - 1)) div p = q + (p - 1) div p"
      using assms by (metis add.commute div_mult_self2 less_numeral_extra(3))
    then have a: "(x + p - 1) div p = q" using assms q by (simp add: algebra_simps)
    have "- x = p * (- q)" using q by simp
    then have "(- x) div p = - q" using assms by (metis less_numeral_extra(3) nonzero_mult_div_cancel_left)
    with a show ?thesis by simp
  next
    case False
    define q where "q = x div p"
    define r where "r = x mod p"
    have x: "x = p * q + r" by (simp add: q_def r_def)
    have "0 \<le> r" "r < p" using assms by (simp_all add: r_def)
    with False have r: "0 < r" "r < p" by (simp_all add: r_def)
    have "(x + p - 1) = p * (q + 1) + (r - 1)" by (simp add: x algebra_simps)
    then have "(x + p - 1) div p = (q + 1) + (r - 1) div p"
      using assms by (metis add.commute div_mult_self2 less_numeral_extra(3))
    then have a: "(x + p - 1) div p = q + 1" using r by simp
    have "(- x) div p = - q - 1"
      using False assms by (simp add: zdiv_zminus1_eq_if q_def)
    with a show ?thesis by simp
  qed
  then show ?thesis by (simp add: ceiling_divide_eq_div)
qed


lemma tag_window_eq:
  assumes "int i + n \<le> int (length ps)"
  shows "tag_window ps i n v = spec_tag_window ps i n v"
proof -
  have "i + m \<le> length ps \<Longrightarrow>
        fold (\<lambda>j qs. qs[i + j := Some v]) [0..<m] ps =
          map (\<lambda>k. if i \<le> k \<and> k < i + m then Some v else ps ! k) [0..<length ps]" for m
  proof (induction m)
    case 0
    then show ?case by (auto intro!: nth_equalityI)
  next
    case (Suc m)
    then show ?case
      by (auto simp: nth_list_update intro!: nth_equalityI)
  qed
  note step = this
  show ?thesis
  proof (cases "0 < n")
    case True
    with assms have "i + nat n \<le> length ps" by linarith
    from step [OF this] have "tag_window ps i n v =
        map (\<lambda>k. if i \<le> k \<and> k < i + nat n then Some v else ps ! k) [0..<length ps]"
      by (simp add: tag_window_def py_range_def)
    also have "\<dots> = spec_tag_window ps i n v"
      using True by (auto simp: spec_tag_window_def)
    finally show ?thesis .
  next
    case False
    then show ?thesis
      by (auto simp: tag_window_def spec_tag_window_def py_range_def intro!: nth_equalityI)
  qed
qed

lemma window_all_free_iff:
  assumes "0 \<le> n" "int i + n \<le> int (length ps)"
  shows "window_all_free ps n i = spec_free_window ps i n"
proof -
  have "py_slice ps (int i) (int i + n) = take (nat n) (drop i ps)"
    using assms by (simp add: py_slice_def Let_def min_def)
  moreover have "length (take (nat n) (drop i ps)) = nat n"
    using assms by simp
  ultimately show ?thesis
    using assms by (auto simp: window_all_free_def spec_free_window_def list_all_length)
qed


lemma fixed_allocate_negative:
  assumes "fx_partition_size s \<noteq> 0"
    and "(rsize + fx_partition_size s - 1) div fx_partition_size s = n" and "n < 0"
  shows "fixed_allocate s pid rsize = Inr (True, s)"
proof -
  let ?ps = "fx_partitions s"
  let ?r = "py_range (int (length ?ps) - n + 1)"
  have "nat (- n) \<in> set ?r"
    using assms(3) by (auto simp: py_range_def)
  moreover have "window_all_free ?ps n (nat (- n))"
    using assms(3) by (simp add: window_all_free_def py_slice_def Let_def)
  ultimately have "find (window_all_free ?ps n) ?r \<noteq> None"
    by (auto simp: find_None_iff)
  then obtain i where "find (window_all_free ?ps n) ?r = Some i"
    by auto
  moreover have "tag_window ?ps i n pid = ?ps"
    using assms(3) by (simp add: tag_window_def py_range_def)
  ultimately show ?thesis
    using assms(1,2) by (simp add: fixed_allocate_def Let_def)
qed

lemma fixed_allocate_general:
  assumes "0 < fx_partition_size s"
  shows
    "(\<forall>i. spec_free_window (fx_partitions s) i \<lceil>real_of_int rsize / real_of_int (fx_partition_size s)\<rceil> \<and>
          (\<forall>k<i. \<not> spec_free_window (fx_partitions s) k \<lceil>real_of_int rsize / real_of_int (fx_partition_size s)\<rceil>) \<longrightarrow>
          fixed_allocate s pid rsize =
            Inr (True, s\<lparr>fx_partitions :=
                           spec_tag_window (fx_partitions s) i \<lceil>real_of_int rsize / real_of_int (fx_partition_size s)\<rceil> pid\<rparr>)) \<and>
     ((\<forall>i. \<not> spec_free_window (fx_partitions s) i \<lceil>real_of_int rsize / real_of_int (fx_partition_size s)\<rceil>) \<longrightarrow>
          fixed_allocate s pid rsize = Inr (False, s))"
proof -
  let ?ps = "fx_partitions s"
  define n where "n = (rsize + fx_partition_size s - 1) div fx_partition_size s"
  have n: "\<lceil>real_of_int rsize / real_of_int (fx_partition_size s)\<rceil> = n"
    using assms by (simp add: n_def ceil_div_formula)
  let ?r = "py_range (int (length ?ps) - n + 1)"
  have nz: "fx_partition_size s \<noteq> 0" using assms by simp
  have first: "fixed_allocate s pid rsize = Inr (True, s\<lparr>fx_partitions := spec_tag_window ?ps i n pid\<rparr>)"
    if w: "spec_free_window ?ps i n" and l: "\<forall>k<i. \<not> spec_free_window ?ps k n" for i
  proof (cases "n < 0")
    case True
    have "spec_free_window ?ps 0 n"
      using True by (simp add: spec_free_window_def)
    with l have "i = 0" by (cases i) auto
    moreover have "spec_tag_window ?ps 0 n pid = ?ps"
      using True by (auto simp: spec_tag_window_def intro!: nth_equalityI)
    ultimately show ?thesis
      using fixed_allocate_negative [OF nz n_def [symmetric] True] by simp
  next
    case False
    then have n0: "0 \<le> n" by simp
    from w have b: "int i + n \<le> int (length ?ps)"
      by (simp add: spec_free_window_def)
    then have len: "i < length ?r" and nth: "?r ! i = i"
      using n0 by (simp_all add: py_range_def)
    have ri: "?r ! k = k" "int k + n \<le> int (length ?ps)" if "k < length ?r" for k
      using that n0 by (simp_all add: py_range_def)
    have "find (window_all_free ?ps n) ?r = Some i"
      unfolding find_Some_iff
    proof (intro exI [of _ i] conjI allI impI)
      show "i < length ?r" by (rule len)
      show "window_all_free ?ps n (?r ! i)"
        using w b n0 by (simp add: nth window_all_free_iff)
      show "i = ?r ! i" by (simp add: nth)
      fix j assume "j < i"
      with len have j: "j < length ?r" by simp
      from \<open>j < i\<close> l have "\<not> spec_free_window ?ps j n" by simp
      then show "\<not> window_all_free ?ps n (?r ! j)"
        using ri [OF j] n0 by (simp add: window_all_free_iff)
    qed
    then show ?thesis
      using nz b by (simp add: fixed_allocate_def Let_def n_def [symmetric] tag_window_eq)
  qed
  have none: "fixed_allocate s pid rsize = Inr (False, s)"
    if l: "\<forall>i. \<not> spec_free_window ?ps i n"
  proof -
    have n0: "0 \<le> n"
    proof (rule ccontr)
      assume "\<not> 0 \<le> n"
      then have "spec_free_window ?ps 0 n" by (simp add: spec_free_window_def)
      with l show False by simp
    qed
    have "\<not> window_all_free ?ps n k" if "k \<in> set ?r" for k
    proof -
      from that n0 have "int k + n \<le> int (length ?ps)"
        by (auto simp: py_range_def)
      with l n0 show ?thesis by (simp add: window_all_free_iff)
    qed
    then have "find (window_all_free ?ps n) ?r = None"
      by (simp add: find_None_iff)
    then show ?thesis
      using nz by (simp add: fixed_allocate_def Let_def n_def [symmetric])
  qed
  show ?thesis
    unfolding n using first none by blast
qed


text \<open>
  Claim C8.  \<open>FixedSizedPartitioning.allocate\<close> needs \<open>ceil(size / partition_size)\<close>
  partitions.  When a window of that many consecutive free partitions exists, the call
  returns \<open>True\<close> and tags exactly the leftmost such window with the process id; when none
  exists it returns \<open>False\<close> and the state is the one before the call.  With memory size
  100 and partition size 10 there are ten partitions; \<open>allocate(1, 15)\<close> takes partitions
  0 and 1, \<open>allocate(2, 25)\<close> takes 2 to 4, \<open>deallocate(1)\<close> frees 0 and 1 only, and
  \<open>allocate(3, 5)\<close> then takes partition 0.
\<close>

theorem fixed_allocate_leftmost_window:
  assumes "0 < fx_partition_size s"
  shows
    "((\<forall>i. spec_free_window (fx_partitions s) i \<lceil>real_of_int rsize / real_of_int (fx_partition_size s)\<rceil> \<and>
          (\<forall>k<i. \<not> spec_free_window (fx_partitions s) k \<lceil>real_of_int rsize / real_of_int (fx_partition_size s)\<rceil>) \<longrightarrow>
          fixed_allocate s pid rsize =
            Inr (True, s\<lparr>fx_partitions :=
                           spec_tag_window (fx_partitions s) i \<lceil>real_of_int rsize / real_of_int (fx_partition_size s)\<rceil> pid\<rparr>)) \<and>
      ((\<forall>i. \<not> spec_free_window (fx_partitions s) i \<lceil>real_of_int rsize / real_of_int (fx_partition_size s)\<rceil>) \<longrightarrow>
          fixed_allocate s pid rsize = Inr (False, s))) \<and>
     (fixed_init 100 10 =
        Inr (fixed100 [None, None, None, None, None, None, None, None, None, None]) \<and>
      fixed_allocate (fixed100 [None, None, None, None, None, None, None, None, None, None]) 1 15 =
        Inr (True, fixed100 [Some 1, Some 1, None, None, None, None, None, None, None, None]) \<and>
      fixed_allocate (fixed100 [Some 1, Some 1, None, None, None, None, None, None, None, None]) 2 25 =
        Inr (True, fixed100 [Some 1, Some 1, Some 2, Some 2, Some 2, None, None, None, None, None]) \<and>
      fixed_deallocate
          (fixed100 [Some 1, Some 1, Some 2, Some 2, Some 2, None, None, None, None, None]) 1 =
        fixed100 [None, None, Some 2, Some 2, Some 2, None, None, None, None, None] \<and>
      fixed_allocate (fixed100 [None, None, Some 2, Some 2, Some 2, None, None, None, None, None]) 3 5 =
        Inr (True, fixed100 [Some 3, None, Some 2, Some 2, Some 2, None, None, None, None, None]))"
proof (intro conjI)
  show "fixed_init 100 10 =
      Inr (fixed100 [None, None, None, None, None, None, None, None, None, None])"
    by code_simp
  show "fixed_allocate (fixed100 [None, None, None, None, None, None, None, None, None, None]) 1 15 =
      Inr (True, fixed100 [Some 1, Some 1, None, None, None, None, None, None, None, None])"
    by code_simp
  show "fixed_allocate (fixed100 [Some 1, Some 1, None, None, None, None, None, None, None, None]) 2 25 =
      Inr (True, fixed100 [Some 1, Some 1, Some 2, Some 2, Some 2, None, None, None, None, None])"
    by code_simp
  show "fixed_deallocate
        (fixed100 [Some 1, Some 1, Some 2, Some 2, Some 2, None, None, None, None, None]) 1 =
      fixed100 [None, None, Some 2, Some 2, Some 2, None, None, None, None, None]"
    by code_simp
  show "fixed_allocate (fixed100 [None, None, Some 2, Some 2, Some 2, None, None, None, None, None]) 3 5 =
      Inr (True, fixed100 [Some 3, None, Some 2, Some 2, Some 2, None, None, None, None, None])"
    by code_simp
qed (use fixed_allocate_general [OF assms, of rsize pid] in blast)+

theorem fixed_allocate_leftmost_window_witness:
  "0 < fx_partition_size (fixed100 [Some 7, None, Some 8, None, None, None]) \<and>
   spec_free_window [Some 7, None, Some 8, None, None, None] 3 2 \<and>
   \<not> spec_free_window [Some 7, None, Some 8, None, None, None] 0 2 \<and>
   \<not> spec_free_window [Some 7, None, Some 8, None, None, None] 1 2 \<and>
   \<not> spec_free_window [Some 7, None, Some 8, None, None, None] 2 2 \<and>
   fixed_allocate (fixed100 [Some 7, None, Some 8, None, None, None]) 9 12 =
     Inr (True, fixed100 [Some 7, None, Some 8, Some 9, Some 9, None])"
proof -
  let ?ps = "[Some 7, None, Some 8, None, None, None] :: int option list"
  have p: "0 < fx_partition_size (fixed100 ?ps)" by simp
  have c: "\<lceil>real_of_int 12 / real_of_int (fx_partition_size (fixed100 ?ps))\<rceil> = 2"
    by (simp add: ceiling_eq_iff)
  have w: "spec_free_window ?ps 3 2" by code_simp
  have n0: "\<not> spec_free_window ?ps 0 2" by code_simp
  have n1: "\<not> spec_free_window ?ps 1 2" by code_simp
  have n2: "\<not> spec_free_window ?ps 2 2" by code_simp
  have l: "\<forall>k<3. \<not> spec_free_window ?ps k 2"
  proof (intro allI impI)
    fix k :: nat
    assume "k < 3"
    then consider "k = 0" | "k = 1" | "k = 2" by linarith
    then show "\<not> spec_free_window ?ps k 2"
      using n0 n1 n2 by cases simp_all
  qed
  have t: "spec_tag_window ?ps 3 2 9 = [Some 7, None, Some 8, Some 9, Some 9, None]"
    by code_simp
  from fixed_allocate_leftmost_window [OF p, of 12 9] w l
  have "fixed_allocate (fixed100 ?ps) 9 12 =
      Inr (True, (fixed100 ?ps)\<lparr>fx_partitions := spec_tag_window ?ps 3 2 9\<rparr>)"
    unfolding c by simp
  then show ?thesis
    using p w n0 n1 n2 by (simp add: t)
qed

section \<open>The scans return a fitting unit; best fit returns the smallest, lowest first\<close>

lemma best_fit_fold_inv:
  fixes ok :: "nat \<Rightarrow> bool" and sz :: "nat \<Rightarrow> int"
  defines "r \<equiv> \<lambda>n. fold (best_fit_step ok sz) [0..<n] (None, None)"
  shows "(fst (r n) = None \<longrightarrow> snd (r n) = None \<and> (\<forall>j<n. \<not> ok j)) \<and>
         (\<forall>i. fst (r n) = Some i \<longrightarrow> snd (r n) = Some (sz i) \<and> i < n \<and> ok i \<and>
            (\<forall>j<n. ok j \<longrightarrow> sz i < sz j \<or> (sz i = sz j \<and> i \<le> j)))"
proof (induction n)
  case 0
  then show ?case by (simp add: r_def)
next
  case (Suc n)
  have step: "r (Suc n) = best_fit_step ok sz n (r n)"
    by (simp add: r_def)
  show ?case
  proof (cases "fst (r n)")
    case None
    with Suc have "snd (r n) = None" "\<forall>j<n. \<not> ok j" by auto
    with None show ?thesis
      unfolding step by (auto simp: best_fit_step_def less_Suc_eq)
  next
    case (Some i)
    with Suc have i: "snd (r n) = Some (sz i)" "i < n" "ok i"
      "\<forall>j<n. ok j \<longrightarrow> sz i < sz j \<or> (sz i = sz j \<and> i \<le> j)" by auto
    show ?thesis
    proof (cases "ok n \<and> sz n < sz i")
      case True
      then have "r (Suc n) = (Some n, Some (sz n))"
        unfolding step using i(1) by (simp add: best_fit_step_def)
      moreover have "\<forall>j<Suc n. ok j \<longrightarrow> sz n < sz j \<or> (sz n = sz j \<and> n \<le> j)"
        using True i(4) by (fastforce simp: less_Suc_eq)
      ultimately show ?thesis using True by simp
    next
      case False
      then have "r (Suc n) = r n"
        unfolding step using i(1) by (auto simp: best_fit_step_def)
      moreover have "\<forall>j<Suc n. ok j \<longrightarrow> sz i < sz j \<or> (sz i = sz j \<and> i \<le> j)"
        using False i(2,4) by (fastforce simp: less_Suc_eq)
      ultimately show ?thesis using Some i by simp
    qed
  qed
qed

lemma best_fit_scan_None:
  "(best_fit_scan ok sz n = None) = (\<forall>j<n. \<not> ok j)"
proof
  assume "best_fit_scan ok sz n = None"
  then show "\<forall>j<n. \<not> ok j"
    using best_fit_fold_inv [where ok = ok and sz = sz and n = n]
    by (simp add: best_fit_scan_def)
next
  assume a: "\<forall>j<n. \<not> ok j"
  show "best_fit_scan ok sz n = None"
  proof (cases "best_fit_scan ok sz n")
    case (Some i)
    then have "i < n \<and> ok i"
      using best_fit_fold_inv [where ok = ok and sz = sz and n = n]
      by (simp add: best_fit_scan_def)
    with a show ?thesis by blast
  qed simp
qed

lemma best_fit_scan_Some:
  assumes "best_fit_scan ok sz n = Some i"
  shows "i < n \<and> ok i \<and> (\<forall>j<n. ok j \<longrightarrow> sz i < sz j \<or> (sz i = sz j \<and> i \<le> j))"
  using best_fit_fold_inv [where ok = ok and sz = sz and n = n] assms
  by (simp add: best_fit_scan_def)

lemma worst_fit_fold_inv:
  fixes ok :: "nat \<Rightarrow> bool" and sz :: "nat \<Rightarrow> int"
  defines "r \<equiv> \<lambda>n. fold (worst_fit_step ok sz) [0..<n] (None, None)"
  shows "\<forall>i. fst (r n) = Some i \<longrightarrow> i < n \<and> ok i"
proof (induction n)
  case 0
  then show ?case by (simp add: r_def)
next
  case (Suc n)
  have step: "r (Suc n) = worst_fit_step ok sz n (r n)"
    by (simp add: r_def)
  from Suc show ?case
    unfolding step by (auto simp: worst_fit_step_def less_Suc_eq split: if_splits)
qed

lemma fit_scan_Some:
  assumes "fit_scan strategy ok sz n = Some i"
  shows "i < n \<and> ok i"
proof -
  have "first_fit_scan ok n = Some i \<Longrightarrow> i < n \<and> ok i"
    by (auto simp: first_fit_scan_def find_Some_iff)
  moreover have "best_fit_scan ok sz n = Some i \<Longrightarrow> i < n \<and> ok i"
    using best_fit_scan_Some by blast
  moreover have "worst_fit_scan ok sz n = Some i \<Longrightarrow> i < n \<and> ok i"
    using worst_fit_fold_inv [where ok = ok and sz = sz and n = n]
    by (simp add: worst_fit_scan_def)
  ultimately show ?thesis
    using assms by (auto simp: fit_scan_def split: if_splits)
qed

lemma find_partition_best_fit:
  "find_partition s rsize ''best_fit'' =
     best_fit_scan (\<lambda>i. uq_allocated s ! i = None \<and> uq_partitions s ! i \<ge> rsize)
       (\<lambda>i. uq_partitions s ! i) (length (uq_partitions s))"
  by (simp add: find_partition_def fit_scan_def)

lemma unequal_best_fit_general:
  "(\<forall>i. spec_best_fit s rsize i \<longrightarrow>
        unequal_allocate s pid rsize ''best_fit'' =
          (True, s\<lparr>uq_allocated := (uq_allocated s)[i := Some pid]\<rparr>)) \<and>
   ((\<forall>i. \<not> spec_candidate s rsize i) \<longrightarrow>
        unequal_allocate s pid rsize ''best_fit'' = (False, s))"
proof (intro conjI allI impI)
  fix i
  assume b: "spec_best_fit s rsize i"
  let ?ok = "\<lambda>i. uq_allocated s ! i = None \<and> uq_partitions s ! i \<ge> rsize"
  let ?sz = "\<lambda>i. uq_partitions s ! i"
  let ?n = "length (uq_partitions s)"
  from b have ci: "i < ?n" "?ok i"
    and bi: "\<forall>j<?n. ?ok j \<longrightarrow> ?sz i < ?sz j \<or> (?sz i = ?sz j \<and> i \<le> j)"
    by (auto simp: spec_best_fit_def spec_candidate_def list_all_iff)
  from ci have "best_fit_scan ?ok ?sz ?n \<noteq> None"
    by (auto simp: best_fit_scan_None)
  then obtain k where k: "best_fit_scan ?ok ?sz ?n = Some k" by auto
  from best_fit_scan_Some [OF k] have ck: "k < ?n" "?ok k"
    and bk: "\<forall>j<?n. ?ok j \<longrightarrow> ?sz k < ?sz j \<or> (?sz k = ?sz j \<and> k \<le> j)"
    by auto
  from bi ck have "?sz i < ?sz k \<or> (?sz i = ?sz k \<and> i \<le> k)" by blast
  moreover from bk ci have "?sz k < ?sz i \<or> (?sz k = ?sz i \<and> k \<le> i)" by blast
  ultimately have "k = i" by linarith
  with k show "unequal_allocate s pid rsize ''best_fit'' =
      (True, s\<lparr>uq_allocated := (uq_allocated s)[i := Some pid]\<rparr>)"
    by (simp add: unequal_allocate_def find_partition_best_fit)
next
  assume "\<forall>i. \<not> spec_candidate s rsize i"
  then have "find_partition s rsize ''best_fit'' = None"
    by (auto simp: find_partition_best_fit best_fit_scan_None spec_candidate_def)
  then show "unequal_allocate s pid rsize ''best_fit'' = (False, s)"
    by (simp add: unequal_allocate_def)
qed

text \<open>
  Claim C7.  With strategy \<open>best_fit\<close>, \<open>UnequalSizedPartitioning.allocate\<close> occupies the
  free partition of the smallest size that is at least the request, the one of lowest
  index among equals, and returns \<open>True\<close>; when no free partition is large enough it
  returns \<open>False\<close> (and changes nothing).  With partitions \<open>[10, 20, 30]\<close>,
  \<open>allocate(1, 12, best_fit)\<close> occupies index 1, the partition of size 20.
\<close>

theorem unequal_allocate_best_fit:
  assumes "length (uq_allocated s) = length (uq_partitions s)"
  shows
    "(\<forall>i. spec_best_fit s rsize i \<longrightarrow>
          unequal_allocate s pid rsize ''best_fit'' =
            (True, s\<lparr>uq_allocated := (uq_allocated s)[i := Some pid]\<rparr>)) \<and>
     ((\<forall>i. \<not> spec_candidate s rsize i) \<longrightarrow>
          unequal_allocate s pid rsize ''best_fit'' = (False, s)) \<and>
     unequal_allocate (unequal_init [10, 20, 30]) 1 12 ''best_fit'' =
       (True, \<lparr>uq_partitions = [10, 20, 30], uq_allocated = [None, Some 1, None]\<rparr>)"
proof -
  have "unequal_allocate (unequal_init [10, 20, 30]) 1 12 ''best_fit'' =
      (True, \<lparr>uq_partitions = [10, 20, 30], uq_allocated = [None, Some 1, None]\<rparr>)"
    by code_simp
  with unequal_best_fit_general [of s rsize pid] show ?thesis
    by blast
qed

theorem unequal_allocate_best_fit_witness:
  "length (uq_allocated \<lparr>uq_partitions = [30, 20, 20, 10],
                         uq_allocated = [None, None, None, Some 5]\<rparr>) =
     length (uq_partitions \<lparr>uq_partitions = [30, 20, 20, 10],
                            uq_allocated = [None, None, None, Some 5]\<rparr>) \<and>
   spec_best_fit \<lparr>uq_partitions = [30, 20, 20, 10],
                  uq_allocated = [None, None, None, Some 5]\<rparr> 15 1 \<and>
   unequal_allocate \<lparr>uq_partitions = [30, 20, 20, 10],
                     uq_allocated = [None, None, None, Some 5]\<rparr> 7 15 ''best_fit'' =
     (True, \<lparr>uq_partitions = [30, 20, 20, 10], uq_allocated = [None, Some 7, None, Some 5]\<rparr>)"
proof -
  let ?s = "\<lparr>uq_partitions = [30, 20, 20, 10], uq_allocated = [None, None, None, Some 5]\<rparr>"
  have len: "length (uq_allocated ?s) = length (uq_partitions ?s)" by simp
  have b: "spec_best_fit ?s 15 1" by code_simp
  from unequal_allocate_best_fit [OF len, of 15 7] b
  have "unequal_allocate ?s 7 15 ''best_fit'' =
      (True, ?s\<lparr>uq_allocated := (uq_allocated ?s)[1 := Some 7]\<rparr>)"
    by blast
  with len b show ?thesis by simp
qed

section \<open>Paging: allocation is all or nothing, frames are never shared\<close>

lemma collect_frames_eq:
  "collect_frames fs vals k acc =
     (if int (length acc) < k
      then acc @ take (nat k - length acc) (filter (\<lambda>f. f \<notin> set vals) fs)
      else acc @ filter (\<lambda>f. f \<notin> set vals) fs)"
proof (induction fs arbitrary: acc)
  case Nil
  then show ?case by simp
next
  case (Cons f fs)
  show ?case
  proof (cases "f \<in> set vals")
    case True
    then show ?thesis by (simp add: Cons.IH)
  next
    case False
    show ?thesis
    proof (cases "int (length acc) + 1 = k")
      case True
      then have "nat k - length acc = Suc 0" by linarith
      with True False show ?thesis by simp
    next
      case ne: False
      show ?thesis
      proof (cases "int (length acc) < k")
        case True
        with ne have "int (length (acc @ [f])) < k" by simp
        moreover from True have "nat k - length acc = Suc (nat k - length (acc @ [f]))"
          using ne by simp
        ultimately show ?thesis
          using False ne by (simp add: Cons.IH)
      next
        case ge: False
        then have "\<not> int (length (acc @ [f])) < k" by simp
        then show ?thesis
          using False ne ge by (simp add: Cons.IH)
      qed
    qed
  qed
qed

lemma assign_pages_lookup:
  "map_of (fold (\<lambda>page t. AList.update (pid, int page) (fr ! page) t) [0..<m] pt) key =
     (if fst key = pid \<and> 0 \<le> snd key \<and> snd key < int m then Some (fr ! nat (snd key))
      else map_of pt key)"
proof (induction m)
  case 0
  then show ?case by auto
next
  case (Suc m)
  show ?case
  proof (cases "key = (pid, int m)")
    case True
    then show ?thesis by (simp add: update_conv')
  next
    case False
    then have "\<not> (fst key = pid \<and> snd key = int m)"
      by (cases key) auto
    then show ?thesis
      using False by (auto simp: update_conv' Suc.IH)
  qed
qed


lemma update_values_subset:
  "set (map snd (AList.update k v al)) \<subseteq> insert v (set (map snd al))"
  by (induction al) auto

lemma update_values_distinct:
  assumes "distinct (map snd al)" "v \<notin> set (map snd al)"
  shows "distinct (map snd (AList.update k v al))"
  using assms
proof (induction al)
  case Nil
  then show ?case by simp
next
  case (Cons a al)
  have "set (map snd (AList.update k v al)) \<subseteq> insert v (set (map snd al))"
    by (rule update_values_subset)
  with Cons show ?case by auto
qed

lemma assign_pages_distinct:
  assumes "distinct (map snd pt)" "distinct fr" "set fr \<inter> set (map snd pt) = {}"
    and "m \<le> length fr"
  shows "distinct (map snd (fold (\<lambda>page t. AList.update (pid, int page) (fr ! page) t) [0..<m] pt)) \<and>
         set (map snd (fold (\<lambda>page t. AList.update (pid, int page) (fr ! page) t) [0..<m] pt))
           \<subseteq> set (map snd pt) \<union> set (take m fr)"
  using assms(4)
proof (induction m)
  case 0
  then show ?case using assms(1) by simp
next
  case (Suc m)
  let ?t = "fold (\<lambda>page t. AList.update (pid, int page) (fr ! page) t) [0..<m] pt"
  from Suc have d: "distinct (map snd ?t)"
    and s: "set (map snd ?t) \<subseteq> set (map snd pt) \<union> set (take m fr)" by auto
  from Suc.prems have m: "m < length fr" by simp
  have "fr ! m \<notin> set (take m fr)"
    using assms(2) m by (auto simp: in_set_conv_nth distinct_conv_nth)
  moreover have "fr ! m \<notin> set (map snd pt)"
    using assms(3) m by (meson disjoint_iff nth_mem)
  ultimately have n: "fr ! m \<notin> set (map snd ?t)" using s by blast
  let ?t' = "AList.update (pid, int m) (fr ! m) ?t"
  have u: "fold (\<lambda>page t. AList.update (pid, int page) (fr ! page) t) [0..<Suc m] pt = ?t'"
    by simp
  have a: "set (map snd ?t') \<subseteq> insert (fr ! m) (set (map snd ?t))"
    by (rule update_values_subset)
  have b: "set (take (Suc m) fr) = insert (fr ! m) (set (take m fr))"
    using m by (simp add: take_Suc_conv_app_nth)
  have "set (map snd ?t') \<subseteq> set (map snd pt) \<union> set (take (Suc m) fr)"
    unfolding b using a s by blast
  moreover have "distinct (map snd ?t')"
    by (rule update_values_distinct [OF d n])
  ultimately show ?case
    unfolding u by blast
qed

lemma assign_pages_keys:
  "distinct (map fst pt) \<Longrightarrow> distinct (map fst (assign_pages pt pid n fr))"
proof -
  have "distinct (map fst pt) \<Longrightarrow>
        distinct (map fst (fold (\<lambda>page t. AList.update (pid, int page) (fr ! page) t) [0..<m] pt))" for m
    by (induction m) (simp_all add: distinct_update)
  then show "distinct (map fst pt) \<Longrightarrow> distinct (map fst (assign_pages pt pid n fr))"
    by (simp add: assign_pages_def py_range_def)
qed

lemma dealloc_fold_distinct:
  "distinct (map fst t) \<Longrightarrow> distinct (map snd t) \<Longrightarrow>
   distinct (map fst (fold (\<lambda>key t. if fst key = pid then AList.delete key t else t) ks t)) \<and>
   distinct (map snd (fold (\<lambda>key t. if fst key = pid then AList.delete key t else t) ks t))"
proof (induction ks arbitrary: t)
  case Nil
  then show ?case by simp
next
  case (Cons k ks)
  have "distinct (map fst (AList.delete k t))" "distinct (map snd (AList.delete k t))"
    using Cons.prems by (simp_all add: AList.delete_eq distinct_map_filter)
  with Cons show ?case by simp
qed

lemma dealloc_fold_absent:
  "\<forall>key \<in> set ks. fst key \<noteq> pid \<Longrightarrow>
   fold (\<lambda>key t. if fst key = pid then AList.delete key t else t) ks t = t"
  by (induction ks arbitrary: t) simp_all


lemma paging_allocate_cases:
  assumes "pg_page_size s \<noteq> 0"
    and "n = (psize + pg_page_size s - 1) div pg_page_size s"
  shows "paging_allocate s pid psize =
     (if int (length (spec_free_frames s)) < n then Inr (False, s)
      else Inr (True, s\<lparr>pg_page_table :=
             assign_pages (pg_page_table s) pid n
               (if 0 < n then take (nat n) (spec_free_frames s) else spec_free_frames s)\<rparr>))"
proof -
  let ?free = "spec_free_frames s"
  have c: "collect_frames (map int (py_range (pg_frames s))) (map snd (pg_page_table s)) n [] =
      (if 0 < n then take (nat n) ?free else ?free)"
    by (simp add: collect_frames_eq spec_free_frames_def py_range_def)
  have "(int (length (if 0 < n then take (nat n) ?free else ?free)) < n) = (int (length ?free) < n)"
    by auto
  then show ?thesis
    using assms(1) unfolding paging_allocate_def Let_def assms(2) [symmetric] c
    by (simp del: length_take)
qed

lemma spec_free_frames_props:
  "distinct (spec_free_frames s)"
  "set (spec_free_frames s) \<inter> set (map snd (pg_page_table s)) = {}"
  by (auto simp: spec_free_frames_def distinct_map inj_on_def)

lemma paging_allocate_wf:
  assumes "paging_wf s" "paging_allocate s pid psize = Inr (b, s')"
  shows "paging_wf s'"
proof -
  define n where "n = (psize + pg_page_size s - 1) div pg_page_size s"
  let ?free = "spec_free_frames s"
  let ?fr = "if 0 < n then take (nat n) ?free else ?free"
  from assms(1) have nz: "pg_page_size s \<noteq> 0" by (simp add: paging_wf_def)
  show ?thesis
  proof (cases "int (length ?free) < n")
    case True
    with assms paging_allocate_cases [OF nz n_def, of pid] show ?thesis by simp
  next
    case False
    with assms(2) paging_allocate_cases [OF nz n_def, of pid]
    have s': "s' = s\<lparr>pg_page_table := assign_pages (pg_page_table s) pid n ?fr\<rparr>" by simp
    have d: "distinct ?fr" "set ?fr \<inter> set (map snd (pg_page_table s)) = {}"
      using spec_free_frames_props [of s] by (auto dest: in_set_takeD)
    have m: "nat n \<le> length ?fr" using False by auto
    from assms(1) have "distinct (map snd (pg_page_table s))" by (simp add: paging_wf_def)
    from assign_pages_distinct [OF this d m, of pid]
    have "distinct (map snd (assign_pages (pg_page_table s) pid n ?fr))"
      by (simp add: assign_pages_def py_range_def)
    moreover have "distinct (map fst (assign_pages (pg_page_table s) pid n ?fr))"
      using assms(1) by (intro assign_pages_keys) (simp add: paging_wf_def)
    ultimately show ?thesis
      using nz by (simp add: s' paging_wf_def)
  qed
qed

lemma paging_deallocate_wf:
  assumes "paging_wf s"
  shows "paging_wf (paging_deallocate s pid)"
  using assms dealloc_fold_distinct [of "pg_page_table s" pid "map fst (pg_page_table s)"]
  by (simp add: paging_wf_def paging_deallocate_def)

lemma paging_allocate_total:
  assumes "pg_page_size s \<noteq> 0"
  shows "\<exists>b s'. paging_allocate s pid psize = Inr (b, s')"
  using paging_allocate_cases [OF assms refl, of pid psize] by auto

lemma paging_run_wf:
  assumes "paging_wf s"
  shows "\<exists>s'. paging_run s ops = Inr s' \<and> paging_wf s'"
  using assms
proof (induction ops arbitrary: s)
  case Nil
  then show ?case by simp
next
  case (Cons op ops)
  have "\<exists>s1. paging_step s op = Inr s1 \<and> paging_wf s1"
  proof (cases op)
    case (PAllocate pid psize)
    from Cons.prems have "pg_page_size s \<noteq> 0" by (simp add: paging_wf_def)
    from paging_allocate_total [OF this, of pid psize]
    obtain b s1 where a: "paging_allocate s pid psize = Inr (b, s1)" by blast
    with paging_allocate_wf [OF Cons.prems a] PAllocate show ?thesis by simp
  next
    case (PDeallocate pid)
    with paging_deallocate_wf [OF Cons.prems] show ?thesis by simp
  qed
  then obtain s1 where s1: "paging_step s op = Inr s1" "paging_wf s1" by blast
  from Cons.IH [OF s1(2)] s1(1) show ?case by simp
qed

lemma distinct_values_injective:
  assumes "distinct (map snd al)" "map_of al k1 = Some v" "map_of al k2 = Some v"
  shows "k1 = k2"
proof -
  from assms(2,3) have "(k1, v) \<in> set al" "(k2, v) \<in> set al"
    by (auto dest: map_of_SomeD)
  moreover from assms(1) have "inj_on snd (set al)" by (simp add: distinct_map)
  ultimately show ?thesis
    using inj_onD [of snd "set al" "(k1, v)" "(k2, v)"] by simp
qed

lemma paging_run_frames_unique:
  assumes "paging_init memory_size page_size = Inr s0"
  shows "\<exists>s. paging_run s0 ops = Inr s \<and> distinct (map fst (pg_page_table s)) \<and>
           distinct (map snd (pg_page_table s)) \<and>
           (\<forall>k1 k2 frame. map_of (pg_page_table s) k1 = Some frame \<and>
                          map_of (pg_page_table s) k2 = Some frame \<longrightarrow> k1 = k2)"
proof -
  from assms have "paging_wf s0"
    by (auto simp: paging_init_def paging_wf_def split: if_splits)
  from paging_run_wf [OF this, of ops] obtain s where
    s: "paging_run s0 ops = Inr s" "paging_wf s" by blast
  then show ?thesis
    by (auto simp: paging_wf_def dest: distinct_values_injective)
qed

lemma paging_allocate_general:
  assumes "0 < pg_page_size s"
  shows
    "(int (length (spec_free_frames s)) < \<lceil>real_of_int psize / real_of_int (pg_page_size s)\<rceil> \<longrightarrow>
        paging_allocate s pid psize = Inr (False, s)) \<and>
     (\<lceil>real_of_int psize / real_of_int (pg_page_size s)\<rceil> \<le> int (length (spec_free_frames s)) \<longrightarrow>
        (\<exists>pt'. paging_allocate s pid psize = Inr (True, s\<lparr>pg_page_table := pt'\<rparr>) \<and>
           (\<forall>key. map_of pt' key =
              (if fst key = pid \<and> 0 \<le> snd key \<and>
                  snd key < \<lceil>real_of_int psize / real_of_int (pg_page_size s)\<rceil>
               then Some (spec_free_frames s ! nat (snd key))
               else map_of (pg_page_table s) key))))"
proof -
  define n where "n = (psize + pg_page_size s - 1) div pg_page_size s"
  have n: "\<lceil>real_of_int psize / real_of_int (pg_page_size s)\<rceil> = n"
    using assms by (simp add: n_def ceil_div_formula)
  from assms have nz: "pg_page_size s \<noteq> 0" by simp
  let ?free = "spec_free_frames s"
  let ?fr = "if 0 < n then take (nat n) ?free else ?free"
  note cases = paging_allocate_cases [OF nz n_def, of pid]
  have "map_of (assign_pages (pg_page_table s) pid n ?fr) key =
          (if fst key = pid \<and> 0 \<le> snd key \<and> snd key < n
           then Some (?free ! nat (snd key)) else map_of (pg_page_table s) key)" for key
  proof -
    have "map_of (assign_pages (pg_page_table s) pid n ?fr) key =
          (if fst key = pid \<and> 0 \<le> snd key \<and> snd key < int (nat n)
           then Some (?fr ! nat (snd key)) else map_of (pg_page_table s) key)"
      by (simp only: assign_pages_def py_range_def assign_pages_lookup)
    moreover have "?fr ! nat (snd key) = ?free ! nat (snd key)" if "0 \<le> snd key" "snd key < n"
      using that by auto
    ultimately show ?thesis by auto
  qed
  note lookup = this
  show ?thesis
    unfolding n
  proof (intro conjI impI)
    assume "int (length ?free) < n"
    with cases show "paging_allocate s pid psize = Inr (False, s)" by simp
  next
    assume "n \<le> int (length ?free)"
    with cases have "paging_allocate s pid psize =
        Inr (True, s\<lparr>pg_page_table := assign_pages (pg_page_table s) pid n ?fr\<rparr>)"
      by simp
    with lookup show "\<exists>pt'. paging_allocate s pid psize = Inr (True, s\<lparr>pg_page_table := pt'\<rparr>) \<and>
           (\<forall>key. map_of pt' key =
              (if fst key = pid \<and> 0 \<le> snd key \<and> snd key < n
               then Some (?free ! nat (snd key))
               else map_of (pg_page_table s) key))"
      by blast
  qed
qed

text \<open>
  Claim C1.  \<open>Paging.allocate\<close> needs \<open>ceil(process_size / page_size)\<close> pages.  When
  fewer frames of \<open>[0, totalFrames)\<close> are unassigned it returns \<open>False\<close> and the state is
  the one before the call.  Otherwise it returns \<open>True\<close>, page \<open>k\<close> of the process (for
  \<open>0 \<le> k < pagesNeeded\<close>) is mapped to the \<open>k\<close>-th free frame in ascending order, and
  every other entry of the page table is as before.  With memory size 40 and page size 10,
  after two processes took two pages each the third \<open>allocate\<close> fails and leaves the page
  table as it was.
\<close>

theorem paging_allocate_all_or_nothing:
  assumes "0 < pg_page_size s"
  shows
    "((int (length (spec_free_frames s)) < \<lceil>real_of_int psize / real_of_int (pg_page_size s)\<rceil> \<longrightarrow>
        paging_allocate s pid psize = Inr (False, s)) \<and>
      (\<lceil>real_of_int psize / real_of_int (pg_page_size s)\<rceil> \<le> int (length (spec_free_frames s)) \<longrightarrow>
        (\<exists>pt'. paging_allocate s pid psize = Inr (True, s\<lparr>pg_page_table := pt'\<rparr>) \<and>
           (\<forall>key. map_of pt' key =
              (if fst key = pid \<and> 0 \<le> snd key \<and>
                  snd key < \<lceil>real_of_int psize / real_of_int (pg_page_size s)\<rceil>
               then Some (spec_free_frames s ! nat (snd key))
               else map_of (pg_page_table s) key))))) \<and>
     (paging_init 40 10 = Inr (paging40 []) \<and>
      paging_run (paging40 []) [PAllocate 1 20, PAllocate 2 20] =
        Inr (paging40 [((1, 0), 0), ((1, 1), 1), ((2, 0), 2), ((2, 1), 3)]) \<and>
      paging_allocate (paging40 [((1, 0), 0), ((1, 1), 1), ((2, 0), 2), ((2, 1), 3)]) 3 20 =
        Inr (False, paging40 [((1, 0), 0), ((1, 1), 1), ((2, 0), 2), ((2, 1), 3)]))"
proof (intro conjI)
  show "paging_init 40 10 = Inr (paging40 [])"
    by code_simp
  show "paging_run (paging40 []) [PAllocate 1 20, PAllocate 2 20] =
      Inr (paging40 [((1, 0), 0), ((1, 1), 1), ((2, 0), 2), ((2, 1), 3)])"
    by code_simp
  show "paging_allocate (paging40 [((1, 0), 0), ((1, 1), 1), ((2, 0), 2), ((2, 1), 3)]) 3 20 =
      Inr (False, paging40 [((1, 0), 0), ((1, 1), 1), ((2, 0), 2), ((2, 1), 3)])"
    by code_simp
qed (use paging_allocate_general [OF assms, of psize pid] in blast)+

theorem paging_allocate_all_or_nothing_witness:
  "0 < pg_page_size (paging40 [((1, 0), 1), ((2, 0), 3)]) \<and>
   spec_free_frames (paging40 [((1, 0), 1), ((2, 0), 3)]) = [0, 2] \<and>
   (\<exists>pt'. paging_allocate (paging40 [((1, 0), 1), ((2, 0), 3)]) 5 15 = Inr (True, paging40 pt') \<and>
      map_of pt' (5, 0) = Some 0 \<and> map_of pt' (5, 1) = Some 2 \<and>
      map_of pt' (1, 0) = Some 1 \<and> map_of pt' (2, 0) = Some 3 \<and> map_of pt' (5, 2) = None)"
proof -
  let ?s = "paging40 [((1, 0), 1), ((2, 0), 3)]"
  have p: "0 < pg_page_size ?s" by simp
  have c: "\<lceil>real_of_int 15 / real_of_int (pg_page_size ?s)\<rceil> = 2"
    by (simp add: ceiling_eq_iff)
  have f: "spec_free_frames ?s = [0, 2]" by code_simp
  from paging_allocate_all_or_nothing [OF p, of 15 5]
  obtain pt' where a: "paging_allocate ?s 5 15 = Inr (True, ?s\<lparr>pg_page_table := pt'\<rparr>)"
    and l: "\<And>key. map_of pt' key =
              (if fst key = 5 \<and> 0 \<le> snd key \<and> snd key < 2
               then Some ([0, 2] ! nat (snd key)) else map_of (pg_page_table ?s) key)"
    unfolding c f by auto
  have "map_of pt' (5, 0) = Some 0" "map_of pt' (5, 1) = Some 2"
    "map_of pt' (1, 0) = Some 1" "map_of pt' (2, 0) = Some 3" "map_of pt' (5, 2) = None"
    by (simp_all add: l)
  with a p f show ?thesis by auto
qed

text \<open>
  Claim C6.  After any sequence of \<open>allocate\<close> and \<open>deallocate\<close> calls on a Paging
  allocator, started from the empty page table, every call has returned and no frame
  number is the value of two page-table entries: two keys \<open>(process, page)\<close> mapped to the
  same frame are the same key.
\<close>

theorem paging_frames_unique:
  assumes "paging_init memory_size page_size = Inr s0"
  shows "\<exists>s. paging_run s0 ops = Inr s \<and> distinct (map fst (pg_page_table s)) \<and>
           distinct (map snd (pg_page_table s)) \<and>
           (\<forall>k1 k2 frame. map_of (pg_page_table s) k1 = Some frame \<and>
                          map_of (pg_page_table s) k2 = Some frame \<longrightarrow> k1 = k2)"
  using paging_run_frames_unique [OF assms] .

theorem paging_frames_unique_witness:
  "paging_init 40 10 = Inr (paging40 []) \<and>
   (\<exists>s. paging_run (paging40 []) [PAllocate 1 20, PAllocate 2 10, PAllocate 1 10, PDeallocate 2] =
           Inr s \<and>
        distinct (map snd (pg_page_table s)))"
proof -
  have i: "paging_init 40 10 = Inr (paging40 [])" by code_simp
  from paging_frames_unique [OF i, of "[PAllocate 1 20, PAllocate 2 10, PAllocate 1 10, PDeallocate 2]"]
  show ?thesis using i by blast
qed

section \<open>DynamicMemoryAllocation: sorting, merging and the tiling invariant\<close>


lemma strict_starts_sorted:
  assumes "sorted_wrt (<) (map blk_start bs)"
  shows "sorted bs"
proof -
  from assms have "sorted_wrt (\<lambda>b c. blk_start b < blk_start c) bs"
    by (simp add: sorted_wrt_map)
  then show ?thesis
    by (rule sorted_wrt_mono_rel [rotated]) (auto simp: blk_start_def less_eq_prod_def)
qed

lemma strict_starts_no_conflict:
  assumes "sorted_wrt (<) (map blk_start bs)"
  shows "\<not> sort_conflict bs"
proof
  assume "sort_conflict bs"
  then obtain b c where bc: "b \<in> set bs" "c \<in> set bs" "blk_start b = blk_start c"
    "blk_pid b = None" "blk_pid c \<noteq> None"
    by (auto simp: sort_conflict_def)
  from assms have "distinct (map blk_start bs)"
    by (simp add: strict_sorted_iff)
  then have "inj_on blk_start (set bs)" by (simp add: distinct_map)
  with bc(1-3) have "b = c" by (auto dest: inj_onD)
  with bc(4,5) show False by simp
qed

lemma py_sorted_candidate:
  assumes "mset cand = mset bs" "sorted_wrt (<) (map blk_start cand)"
  shows "py_sorted bs = Inr cand"
proof -
  from assms(1) have "set cand = set bs" by (rule mset_eq_setD)
  then have "sort_conflict bs = sort_conflict cand"
    by (simp add: sort_conflict_def)
  with strict_starts_no_conflict [OF assms(2)] have "\<not> sort_conflict bs" by simp
  moreover have "sort bs = cand"
    using assms(1) strict_starts_sorted [OF assms(2)] by (rule properties_for_sort)
  ultimately show ?thesis by (simp add: py_sorted_def)
qed

lemma chain_positive_strict:
  assumes "spec_chain bs" "list_all (\<lambda>b. 0 < blk_size b) bs"
  shows "sorted_wrt (<) (map blk_start bs)"
proof -
  have "successively (\<lambda>b c. blk_start b < blk_start c) bs"
    using assms(1) unfolding spec_chain_def
  proof (rule successively_mono)
    fix b c
    assume "b \<in> set bs" "blk_start c = blk_start b + blk_size b"
    with assms(2) show "blk_start b < blk_start c"
      by (auto simp: list_all_iff)
  qed
  then have "sorted_wrt (\<lambda>b c. blk_start b < blk_start c) bs"
    by (subst (asm) successively_conv_sorted_wrt) (auto simp: transp_def)
  then show ?thesis by (simp add: sorted_wrt_map)
qed



lemma merge_step_single:
  "merge_step b [l] =
     (if blk_pid l = None \<and> blk_pid b = None
      then [(blk_start l, blk_size l + blk_size b, None)]
      else [l, b])"
  by (simp add: merge_step_def)

lemma merge_step_snoc:
  "merge_step b (acc @ [l]) = acc @ merge_step b [l]"
  by (simp add: merge_step_def)

lemma merge_fold_prefix:
  "fold merge_step xs (acc @ [l]) = acc @ fold merge_step xs [l]"
proof (induction xs arbitrary: acc l)
  case Nil
  then show ?case by simp
next
  case (Cons b xs)
  show ?case
  proof (cases "blk_pid l = None \<and> blk_pid b = None")
    case True
    let ?l' = "(blk_start l, blk_size l + blk_size b, None)"
    have "fold merge_step (b # xs) (acc @ [l]) = fold merge_step xs (acc @ [?l'])"
      using True by (simp add: merge_step_snoc merge_step_single)
    also have "\<dots> = acc @ fold merge_step xs [?l']" by (rule Cons.IH)
    also have "\<dots> = acc @ fold merge_step (b # xs) [l]"
      using True by (simp add: merge_step_single)
    finally show ?thesis .
  next
    case False
    have "fold merge_step (b # xs) (acc @ [l]) = fold merge_step xs ((acc @ [l]) @ [b])"
      using False by (auto simp add: merge_step_snoc merge_step_single)
    also have "\<dots> = (acc @ [l]) @ fold merge_step xs [b]" by (rule Cons.IH)
    also have "\<dots> = acc @ ([l] @ fold merge_step xs [b])" by simp
    also have "[l] @ fold merge_step xs [b] = fold merge_step xs ([l] @ [b])"
      by (rule Cons.IH [symmetric])
    also have "fold merge_step xs ([l] @ [b]) = fold merge_step (b # xs) [l]"
      using False by (auto simp add: merge_step_single)
    finally show ?thesis .
  qed
qed

lemma coalesce_free_Cons:
  "blk_pid b = None \<Longrightarrow>
   spec_coalesce (b # bs) =
     (blk_start b, blk_size b + sum_list (map blk_size (takeWhile (\<lambda>c. blk_pid c = None) bs)), None)
     # spec_coalesce (dropWhile (\<lambda>c. blk_pid c = None) bs)"
  by (simp add: spec_coalesce.simps(2))

lemma coalesce_used_Cons:
  "blk_pid b \<noteq> None \<Longrightarrow> spec_coalesce (b # bs) = b # spec_coalesce bs"
  by (simp add: spec_coalesce.simps(2) del: not_None_eq)

lemma free_block_eq: "blk_pid l = None \<Longrightarrow> (blk_start l, blk_size l, None) = l"
  by (cases l) (simp add: blk_start_def blk_size_def blk_pid_def)

lemma merge_fold_coalesce:
  "fold merge_step xs [l] = spec_coalesce (l # xs)"
proof (induction xs arbitrary: l)
  case Nil
  show ?case
  proof (cases "blk_pid l = None")
    case True
    then show ?thesis by (simp add: coalesce_free_Cons free_block_eq)
  next
    case False
    then show ?thesis by (simp add: coalesce_used_Cons del: not_None_eq)
  qed
next
  case (Cons b xs)
  have split: "fold merge_step (b # xs) [l] = l # spec_coalesce (b # xs)"
    if "\<not> (blk_pid l = None \<and> blk_pid b = None)"
  proof -
    have "fold merge_step (b # xs) [l] = fold merge_step xs ([l] @ [b])"
      using that by (auto simp add: merge_step_single)
    also have "\<dots> = [l] @ fold merge_step xs [b]" by (rule merge_fold_prefix)
    also have "\<dots> = l # spec_coalesce (b # xs)" by (simp add: Cons.IH)
    finally show ?thesis .
  qed
  show ?case
  proof (cases "blk_pid l = None")
    case free: True
    show ?thesis
    proof (cases "blk_pid b = None")
      case True
      let ?l' = "(blk_start l, blk_size l + blk_size b, None :: int option)"
      have l': "blk_pid ?l' = None" "blk_start ?l' = blk_start l"
        "blk_size ?l' = blk_size l + blk_size b"
        by (simp_all add: blk_start_def blk_size_def blk_pid_def)
      have "fold merge_step (b # xs) [l] = fold merge_step xs [?l']"
        using free True by (simp add: merge_step_single)
      also have "\<dots> = spec_coalesce (?l' # xs)" by (rule Cons.IH)
      also have "\<dots> = spec_coalesce (l # b # xs)"
        unfolding coalesce_free_Cons [OF l'(1)] coalesce_free_Cons [OF free]
        using True by (simp add: l')
      finally show ?thesis .
    next
      case False
      then have "takeWhile (\<lambda>c. blk_pid c = None) (b # xs) = []"
        "dropWhile (\<lambda>c. blk_pid c = None) (b # xs) = b # xs"
        by (simp_all del: not_None_eq)
      then have "spec_coalesce (l # b # xs) = l # spec_coalesce (b # xs)"
        unfolding coalesce_free_Cons [OF free] by (simp add: free_block_eq [OF free])
      with split False show ?thesis by simp
    qed
  next
    case False
    with split have "fold merge_step (b # xs) [l] = l # spec_coalesce (b # xs)" by blast
    with coalesce_used_Cons [OF False] show ?thesis by simp
  qed
qed

lemma merge_pass_coalesce: "fold merge_step bs [] = spec_coalesce bs"
proof (cases bs)
  case Nil
  then show ?thesis by simp
next
  case (Cons b xs)
  have "merge_step b [] = [b]" by (simp add: merge_step_def)
  with Cons show ?thesis by (simp add: merge_fold_coalesce)
qed

lemma coalesce_head:
  assumes "bs \<noteq> []" "blk_pid (hd bs) \<noteq> None"
  shows "spec_coalesce bs \<noteq> [] \<and> blk_pid (hd (spec_coalesce bs)) \<noteq> None"
proof (cases bs)
  case Nil
  with assms show ?thesis by simp
next
  case (Cons c cs)
  with assms(2) have "blk_pid c \<noteq> None" by simp
  from coalesce_used_Cons [OF this] this Cons show ?thesis by simp
qed

lemma coalesce_no_adjacent_free: "spec_no_adjacent_free (spec_coalesce bs)"
proof (induction bs rule: spec_coalesce.induct)
  case 1
  then show ?case by (simp add: spec_no_adjacent_free_def)
next
  case (2 b bs)
  show ?case
  proof (cases "blk_pid b = None")
    case True
    let ?rest = "dropWhile (\<lambda>c. blk_pid c = None) bs"
    let ?new = "(blk_start b,
      blk_size b + sum_list (map blk_size (takeWhile (\<lambda>c. blk_pid c = None) bs)), None :: int option)"
    have eq: "spec_coalesce (b # bs) = ?new # spec_coalesce ?rest"
      using True by (rule coalesce_free_Cons)
    have ih: "spec_no_adjacent_free (spec_coalesce ?rest)"
      by (rule "2.IH"(1) [OF True])
    have hd: "spec_coalesce ?rest = [] \<or> blk_pid (hd (spec_coalesce ?rest)) \<noteq> None"
    proof (cases "?rest = []")
      case True
      then show ?thesis by (metis spec_coalesce.simps(1))
    next
      case False
      then have "blk_pid (hd ?rest) \<noteq> None"
        using hd_dropWhile [of "\<lambda>c. blk_pid c = None" bs] by blast
      with False coalesce_head [of ?rest] show ?thesis by blast
    qed
    show ?thesis
      unfolding eq spec_no_adjacent_free_def successively_Cons
      using hd ih [unfolded spec_no_adjacent_free_def] by blast
  next
    case False
    have eq: "spec_coalesce (b # bs) = b # spec_coalesce bs"
      using False by (rule coalesce_used_Cons)
    show ?thesis
      unfolding eq spec_no_adjacent_free_def successively_Cons
      using False "2.IH"(2) [OF False, unfolded spec_no_adjacent_free_def] by blast
  qed
qed

lemma coalesce_id:
  "spec_no_adjacent_free bs \<Longrightarrow> spec_coalesce bs = bs"
proof (induction bs rule: spec_coalesce.induct)
  case 1
  then show ?case by simp
next
  case (2 b bs)
  from "2.prems" have "bs = [] \<or> \<not> (blk_pid b = None \<and> blk_pid (hd bs) = None) \<and>
      successively (\<lambda>b c. \<not> (blk_pid b = None \<and> blk_pid c = None)) bs"
    unfolding spec_no_adjacent_free_def successively_Cons .
  then have n: "spec_no_adjacent_free bs"
    and h: "bs = [] \<or> \<not> (blk_pid b = None \<and> blk_pid (hd bs) = None)"
    unfolding spec_no_adjacent_free_def by auto
  show ?case
  proof (cases "blk_pid b = None")
    case True
    with h have "bs = [] \<or> blk_pid (hd bs) \<noteq> None" by auto
    then have tw: "takeWhile (\<lambda>c. blk_pid c = None) bs = []"
      and dw: "dropWhile (\<lambda>c. blk_pid c = None) bs = bs"
      by (cases bs; simp del: not_None_eq)+
    from "2.IH"(1) [OF True] n have "spec_coalesce bs = bs" by (simp add: dw)
    then show ?thesis
      unfolding coalesce_free_Cons [OF True] tw dw by (simp add: free_block_eq [OF True])
  next
    case False
    from "2.IH"(2) [OF False n] show ?thesis
      unfolding coalesce_used_Cons [OF False] by simp
  qed
qed


lemma chain_append:
  "spec_chain (xs @ ys) =
     (spec_chain xs \<and> spec_chain ys \<and>
      (xs = [] \<or> ys = [] \<or> blk_start (hd ys) = blk_start (last xs) + blk_size (last xs)))"
  by (simp add: spec_chain_def successively_append_iff)

lemma chain_end:
  "spec_chain (b # xs) \<Longrightarrow>
   blk_start (last (b # xs)) + blk_size (last (b # xs)) =
     blk_start b + blk_size b + sum_list (map blk_size xs)"
proof (induction xs arbitrary: b)
  case Nil
  then show ?case by simp
next
  case (Cons c xs)
  from Cons.prems have l: "blk_start c = blk_start b + blk_size b" and c: "spec_chain (c # xs)"
    by (simp_all add: spec_chain_def)
  from Cons.IH [OF c] l show ?case by simp
qed

lemma coalesce_chain:
  assumes "bs \<noteq> []" "spec_chain bs"
  shows "spec_coalesce bs \<noteq> [] \<and>
         blk_start (hd (spec_coalesce bs)) = blk_start (hd bs) \<and>
         spec_chain (spec_coalesce bs) \<and>
         blk_start (last (spec_coalesce bs)) + blk_size (last (spec_coalesce bs)) =
           blk_start (last bs) + blk_size (last bs)"
  using assms
proof (induction bs rule: spec_coalesce.induct)
  case 1
  then show ?case by simp
next
  case (2 b bs)
  show ?case
  proof (cases "blk_pid b = None")
    case True
    let ?run = "takeWhile (\<lambda>c. blk_pid c = None) bs"
    let ?rest = "dropWhile (\<lambda>c. blk_pid c = None) bs"
    let ?new = "(blk_start b, blk_size b + sum_list (map blk_size ?run), None :: int option)"
    have eq: "spec_coalesce (b # bs) = ?new # spec_coalesce ?rest"
      using True by (rule coalesce_free_Cons)
    have new: "blk_start ?new = blk_start b"
      "blk_size ?new = blk_size b + sum_list (map blk_size ?run)"
      by (simp_all add: blk_start_def blk_size_def)
    have bs: "b # bs = (b # ?run) @ ?rest" by simp
    from "2.prems"(2) have "spec_chain ((b # ?run) @ ?rest)" by simp
    then have c1: "spec_chain (b # ?run)" and c2: "spec_chain ?rest"
      and c3: "?rest = [] \<or>
          blk_start (hd ?rest) = blk_start (last (b # ?run)) + blk_size (last (b # ?run))"
      unfolding chain_append by blast+
    have e: "blk_start (last (b # ?run)) + blk_size (last (b # ?run)) =
        blk_start ?new + blk_size ?new"
      using chain_end [OF c1] by (simp only: new)
    show ?thesis
    proof (cases "?rest = []")
      case True
      then have "spec_coalesce ?rest = []" by (metis spec_coalesce.simps(1))
      moreover have "last (b # bs) = last (b # ?run)"
        by (subst bs) (simp only: True append_Nil2)
      ultimately show ?thesis
        unfolding eq using e by (simp add: spec_chain_def new)
    next
      case False
      from "2.IH"(1) [OF True False c2]
      have ih: "spec_coalesce ?rest \<noteq> []"
        "blk_start (hd (spec_coalesce ?rest)) = blk_start (hd ?rest)"
        "spec_chain (spec_coalesce ?rest)"
        "blk_start (last (spec_coalesce ?rest)) + blk_size (last (spec_coalesce ?rest)) =
           blk_start (last ?rest) + blk_size (last ?rest)"
        by blast+
      have lastbs: "last (b # bs) = last ?rest"
        by (subst bs) (simp only: last_appendR [OF False])
      from c3 False
      have "blk_start (hd ?rest) = blk_start (last (b # ?run)) + blk_size (last (b # ?run))"
        by blast
      with e ih(2) have link:
        "blk_start (hd (spec_coalesce ?rest)) = blk_start ?new + blk_size ?new"
        by (simp only:)
      have chain: "spec_chain (?new # spec_coalesce ?rest)"
        unfolding spec_chain_def successively_Cons
        using link ih(3) [unfolded spec_chain_def] by blast
      have lastnew: "last (?new # spec_coalesce ?rest) = last (spec_coalesce ?rest)"
        using ih(1) by simp
      show ?thesis
        unfolding eq
      proof (intro conjI)
        show "?new # spec_coalesce ?rest \<noteq> []" by simp
        show "blk_start (hd (?new # spec_coalesce ?rest)) = blk_start (hd (b # bs))"
          by (simp add: new)
        show "spec_chain (?new # spec_coalesce ?rest)" by (rule chain)
        show "blk_start (last (?new # spec_coalesce ?rest)) +
            blk_size (last (?new # spec_coalesce ?rest)) =
            blk_start (last (b # bs)) + blk_size (last (b # bs))"
          unfolding lastnew lastbs by (rule ih(4))
      qed
    qed
  next
    case False
    have eq: "spec_coalesce (b # bs) = b # spec_coalesce bs"
      using False by (rule coalesce_used_Cons)
    show ?thesis
    proof (cases "bs = []")
      case True
      then show ?thesis unfolding eq by (simp add: spec_chain_def)
    next
      case ne: False
      from "2.prems"(2) ne have c: "spec_chain bs"
        and l: "blk_start (hd bs) = blk_start b + blk_size b"
        by (simp_all add: spec_chain_def successively_Cons)
      from "2.IH"(2) [OF False ne c]
      have ih: "spec_coalesce bs \<noteq> []"
        "blk_start (hd (spec_coalesce bs)) = blk_start (hd bs)"
        "spec_chain (spec_coalesce bs)"
        "blk_start (last (spec_coalesce bs)) + blk_size (last (spec_coalesce bs)) =
           blk_start (last bs) + blk_size (last bs)"
        by blast+
      from l ih(2) have link: "blk_start (hd (spec_coalesce bs)) = blk_start b + blk_size b"
        by (simp only:)
      have "spec_chain (b # spec_coalesce bs)"
        unfolding spec_chain_def successively_Cons
        using link ih(3) [unfolded spec_chain_def] by blast
      moreover have "last (b # spec_coalesce bs) = last (spec_coalesce bs)"
        "last (b # bs) = last bs"
        using ih(1) ne by simp_all
      ultimately show ?thesis
        unfolding eq using ih(4) by simp
    qed
  qed
qed

lemma coalesce_positive:
  "list_all (\<lambda>b. 0 < blk_size b) bs \<Longrightarrow> list_all (\<lambda>b. 0 < blk_size b) (spec_coalesce bs)"
proof (induction bs rule: spec_coalesce.induct)
  case 1
  then show ?case by simp
next
  case (2 b bs)
  from "2.prems" have b: "0 < blk_size b" and all: "list_all (\<lambda>b. 0 < blk_size b) bs"
    by simp_all
  show ?case
  proof (cases "blk_pid b = None")
    case True
    let ?run = "takeWhile (\<lambda>c. blk_pid c = None) bs"
    let ?rest = "dropWhile (\<lambda>c. blk_pid c = None) bs"
    let ?new = "(blk_start b, blk_size b + sum_list (map blk_size ?run), None :: int option)"
    have "0 \<le> x" if "x \<in> set (map blk_size ?run)" for x
    proof -
      from that obtain c where "c \<in> set ?run" "x = blk_size c" by auto
      moreover from this have "c \<in> set bs" by (auto dest: set_takeWhileD)
      ultimately show ?thesis using all by (auto simp: list_all_iff)
    qed
    then have "0 \<le> sum_list (map blk_size ?run)"
      by (rule sum_list_nonneg)
    with b have n: "0 < blk_size ?new" by (simp add: blk_size_def)
    have "list_all (\<lambda>b. 0 < blk_size b) ?rest"
      unfolding list_all_iff
    proof
      fix c assume "c \<in> set ?rest"
      then have "c \<in> set bs" by (rule set_dropWhileD)
      with all show "0 < blk_size c" by (auto simp: list_all_iff)
    qed
    from "2.IH"(1) [OF True this] n show ?thesis
      unfolding coalesce_free_Cons [OF True] by simp
  next
    case False
    from "2.IH"(2) [OF False all] b show ?thesis
      unfolding coalesce_used_Cons [OF False] by simp
  qed
qed

lemma replace_block:
  assumes "spec_chain (xs @ F # ys)" "spec_no_adjacent_free (xs @ F # ys)"
    and "mid \<noteq> []" "spec_chain mid" "spec_no_adjacent_free mid"
    and "blk_start (hd mid) = blk_start F"
    and "blk_start (last mid) + blk_size (last mid) = blk_start F + blk_size F"
    and "blk_pid (hd mid) = None \<longrightarrow> blk_pid F = None"
    and "blk_pid (last mid) = None \<longrightarrow> blk_pid F = None"
  shows "spec_chain (xs @ mid @ ys) \<and> spec_no_adjacent_free (xs @ mid @ ys) \<and>
         blk_start (hd (xs @ mid @ ys)) = blk_start (hd (xs @ F # ys)) \<and>
         blk_start (last (xs @ mid @ ys)) + blk_size (last (xs @ mid @ ys)) =
           blk_start (last (xs @ F # ys)) + blk_size (last (xs @ F # ys))"
proof -
  have 1: "spec_chain (xs @ mid @ ys)"
    using assms(1,3,4,6,7)
    by (auto simp: spec_chain_def successively_append_iff successively_Cons)
  have 2: "spec_no_adjacent_free (xs @ mid @ ys)"
    using assms(2,3,5,8,9)
    by (auto simp: spec_no_adjacent_free_def successively_append_iff successively_Cons)
  have 3: "blk_start (hd (xs @ mid @ ys)) = blk_start (hd (xs @ F # ys))"
    using assms(3,6) by (cases xs) auto
  have 4: "blk_start (last (xs @ mid @ ys)) + blk_size (last (xs @ mid @ ys)) =
           blk_start (last (xs @ F # ys)) + blk_size (last (xs @ F # ys))"
    using assms(3,7) by (cases ys rule: rev_cases) auto
  from 1 2 3 4 show ?thesis by blast
qed


lemma blk_simps:
  "blk_start (a, z, p) = a" "blk_size (a, z, p) = z" "blk_pid (a, z, p) = p"
  by (simp_all add: blk_start_def blk_size_def blk_pid_def)

lemma relabel_simps:
  "blk_start (relabel p b) = blk_start b" "blk_size (relabel p b) = blk_size b"
  "blk_pid (relabel p b) = (if blk_pid b = Some p then None else blk_pid b)"
  by (simp_all add: relabel_def blk_simps)

lemma relabel_id: "blk_pid b \<noteq> Some p \<Longrightarrow> relabel p b = b"
  by (cases b) (simp add: relabel_def blk_simps)

lemma relabel_chain: "spec_chain (map (relabel p) bs) = spec_chain bs"
  by (simp add: spec_chain_def successively_map relabel_simps)

lemma relabel_starts: "map blk_start (map (relabel p) bs) = map blk_start bs"
  by (simp add: relabel_simps)

lemma inv_strict:
  assumes "dynamic_inv s"
  shows "sorted_wrt (<) (map blk_start (dy_memory s))"
proof -
  from assms have c: "spec_chain (dy_memory s)"
    and d: "dy_memory s = [(0, dy_memory_size s, None)] \<or>
            list_all (\<lambda>b. 0 < blk_size b) (dy_memory s)"
    by (simp_all add: dynamic_inv_def)
  from d show ?thesis
  proof
    assume "dy_memory s = [(0, dy_memory_size s, None)]"
    then show ?thesis by simp
  next
    assume "list_all (\<lambda>b. 0 < blk_size b) (dy_memory s)"
    with c show ?thesis by (rule chain_positive_strict)
  qed
qed

lemma dynamic_deallocate_eq:
  assumes "sorted_wrt (<) (map blk_start (dy_memory s))"
  shows "dynamic_deallocate s pid =
           Inr (s\<lparr>dy_memory := spec_coalesce (map (relabel pid) (dy_memory s))\<rparr>)"
proof -
  let ?R = "map (relabel pid) (dy_memory s)"
  from assms have "sorted_wrt (<) (map blk_start ?R)"
    by (simp only: relabel_starts)
  then have "py_sorted ?R = Inr ?R"
    by (intro py_sorted_candidate) simp_all
  then show ?thesis
    by (simp add: dynamic_deallocate_def merge_free_blocks_def merge_pass_coalesce)
qed

lemma dynamic_deallocate_absent:
  assumes "dynamic_inv s" "\<forall>b \<in> set (dy_memory s). blk_pid b \<noteq> Some pid"
  shows "dynamic_deallocate s pid = Inr s"
proof -
  from assms(2) have "map (relabel pid) (dy_memory s) = dy_memory s"
    by (simp add: map_idI relabel_id)
  moreover from assms(1) have "spec_coalesce (dy_memory s) = dy_memory s"
    by (intro coalesce_id) (simp add: dynamic_inv_def)
  ultimately show ?thesis
    using dynamic_deallocate_eq [OF inv_strict [OF assms(1)], of pid] by simp
qed

lemma dynamic_deallocate_inv:
  assumes "dynamic_inv s"
  shows "\<exists>s'. dynamic_deallocate s pid = Inr s' \<and> dynamic_inv s' \<and>
              dy_memory_size s' = dy_memory_size s"
proof -
  let ?L = "dy_memory s"
  let ?R = "map (relabel pid) ?L"
  let ?M = "spec_coalesce ?R"
  from assms have ne: "?L \<noteq> []" and h: "blk_start (hd ?L) = 0" and c: "spec_chain ?L"
    and e: "blk_start (last ?L) + blk_size (last ?L) = dy_memory_size s"
    and d: "?L = [(0, dy_memory_size s, None)] \<or> list_all (\<lambda>b. 0 < blk_size b) ?L"
    by (simp_all add: dynamic_inv_def)
  from ne have neR: "?R \<noteq> []" by simp
  from c have cR: "spec_chain ?R" by (simp only: relabel_chain)
  from coalesce_chain [OF neR cR]
  have m: "?M \<noteq> []" "blk_start (hd ?M) = blk_start (hd ?R)" "spec_chain ?M"
    "blk_start (last ?M) + blk_size (last ?M) = blk_start (last ?R) + blk_size (last ?R)"
    by blast+
  from ne have "hd ?R = relabel pid (hd ?L)" "last ?R = relabel pid (last ?L)"
    by (simp_all add: hd_map last_map)
  with m h e have m': "blk_start (hd ?M) = 0"
    "blk_start (last ?M) + blk_size (last ?M) = dy_memory_size s"
    by (simp_all add: relabel_simps)
  have "?M = [(0, dy_memory_size s, None)] \<or> list_all (\<lambda>b. 0 < blk_size b) ?M"
    using d
  proof
    assume l: "?L = [(0, dy_memory_size s, None)]"
    then have "?R = [(0, dy_memory_size s, None)]"
      by (simp add: relabel_def blk_simps)
    moreover have "spec_coalesce [(0, dy_memory_size s, None)] = [(0, dy_memory_size s, None)]"
      by (intro coalesce_id) (simp add: spec_no_adjacent_free_def)
    ultimately show ?thesis by simp
  next
    assume "list_all (\<lambda>b. 0 < blk_size b) ?L"
    then have "list_all (\<lambda>b. 0 < blk_size b) ?R"
      by (simp add: list_all_iff relabel_simps)
    then show ?thesis by (simp add: coalesce_positive)
  qed
  with m m' coalesce_no_adjacent_free [of ?R]
  have "dynamic_inv (s\<lparr>dy_memory := ?M\<rparr>)"
    by (simp add: dynamic_inv_def)
  with dynamic_deallocate_eq [OF inv_strict [OF assms], of pid] show ?thesis
    by simp
qed


lemma find_block_Some:
  assumes "find_block s r strategy = Some i"
  shows "i < length (dy_memory s) \<and> blk_pid (dy_memory s ! i) = None \<and>
         r \<le> blk_size (dy_memory s ! i)"
  using fit_scan_Some [OF assms [unfolded find_block_def]] by simp

lemma dynamic_allocate_found:
  assumes i: "i < length (dy_memory s)" and f: "find_block s r strategy = Some i"
  shows "dynamic_allocate s pid r strategy =
     (case py_sorted
        ((if blk_size (dy_memory s ! i) = r
          then take i (dy_memory s) @ drop (Suc i) (dy_memory s)
          else take i (dy_memory s) @
               (blk_start (dy_memory s ! i) + r, blk_size (dy_memory s ! i) - r, None)
               # drop (Suc i) (dy_memory s))
         @ [(blk_start (dy_memory s ! i), r, Some pid)]) of
        Inl e \<Rightarrow> Inl e
      | Inr m4 \<Rightarrow> Inr (True, s\<lparr>dy_memory := m4\<rparr>))"
proof -
  let ?L = "dy_memory s"
  let ?R = "(blk_start (?L ! i) + r, blk_size (?L ! i) - r, None :: int option)"
  have u: "?L[i := ?R] = take i ?L @ ?R # drop (Suc i) ?L"
    using i by (rule upd_conv_take_nth_drop)
  have n: "?L[i := ?R] ! i = ?R" using i by simp
  have p: "list_pop (?L[i := ?R]) i = take i ?L @ drop (Suc i) ?L"
    using i by (simp add: list_pop_def)
  show ?thesis
    unfolding dynamic_allocate_def f Let_def option.case n p blk_simps
    by (simp add: u)
qed

lemma dynamic_allocate_inv:
  assumes inv: "dynamic_inv s" and pos: "0 < r"
  shows "\<exists>b s'. dynamic_allocate s pid r strategy = Inr (b, s') \<and> dynamic_inv s' \<and>
                dy_memory_size s' = dy_memory_size s"
proof (cases "find_block s r strategy")
  case None
  then have "dynamic_allocate s pid r strategy = Inr (False, s)"
    by (simp add: dynamic_allocate_def)
  with inv show ?thesis by blast
next
  case (Some i)
  let ?L = "dy_memory s"
  define F where "F = ?L ! i"
  define xs where "xs = take i ?L"
  define ys where "ys = drop (Suc i) ?L"
  define a where "a = blk_start F"
  define z where "z = blk_size F"
  from find_block_Some [OF Some] have i: "i < length ?L" and free: "blk_pid F = None"
    and fit: "r \<le> z"
    by (simp_all add: F_def z_def)
  have L: "?L = xs @ F # ys"
    unfolding xs_def ys_def F_def using i by (rule id_take_nth_drop)
  from inv have ne: "?L \<noteq> []" and h: "blk_start (hd ?L) = 0" and c: "spec_chain ?L"
    and e: "blk_start (last ?L) + blk_size (last ?L) = dy_memory_size s"
    and n: "spec_no_adjacent_free ?L"
    and d: "?L = [(0, dy_memory_size s, None)] \<or> list_all (\<lambda>b. 0 < blk_size b) ?L"
    by (simp_all add: dynamic_inv_def)
  have allpos: "list_all (\<lambda>b. 0 < blk_size b) ?L"
    using d
  proof
    assume l: "?L = [(0, dy_memory_size s, None)]"
    with i have "F = (0, dy_memory_size s, None)" by (simp add: F_def)
    with fit pos have "0 < dy_memory_size s" by (simp add: z_def blk_simps)
    with l show ?thesis by (simp add: blk_simps)
  qed
  define A where "A = (a, r, Some pid)"
  define R where "R = (a + r, z - r, None :: int option)"
  define mid where "mid = (if z = r then [A] else [A, R])"
  define m3 where "m3 = (if z = r then xs @ ys else xs @ R # ys) @ [A]"
  have alloc: "dynamic_allocate s pid r strategy =
      (case py_sorted m3 of Inl e \<Rightarrow> Inl e | Inr m4 \<Rightarrow> Inr (True, s\<lparr>dy_memory := m4\<rparr>))"
    unfolding dynamic_allocate_found [OF i Some] m3_def R_def A_def a_def z_def xs_def ys_def F_def
    by (rule refl)
  have mset: "mset (xs @ mid @ ys) = mset m3"
    by (simp add: mid_def m3_def)
  have mid: "mid \<noteq> []" "spec_chain mid" "spec_no_adjacent_free mid"
    "blk_start (hd mid) = blk_start F"
    "blk_start (last mid) + blk_size (last mid) = blk_start F + blk_size F"
    "blk_pid (hd mid) = None \<longrightarrow> blk_pid F = None"
    "blk_pid (last mid) = None \<longrightarrow> blk_pid F = None"
    using free
    by (simp_all add: mid_def A_def R_def a_def z_def spec_chain_def spec_no_adjacent_free_def
        blk_simps)
  from replace_block [OF c [unfolded L] n [unfolded L] mid]
  have r1: "spec_chain (xs @ mid @ ys)" and r2: "spec_no_adjacent_free (xs @ mid @ ys)"
    and r3: "blk_start (hd (xs @ mid @ ys)) = blk_start (hd ?L)"
    and r4: "blk_start (last (xs @ mid @ ys)) + blk_size (last (xs @ mid @ ys)) =
             blk_start (last ?L) + blk_size (last ?L)"
    unfolding L [symmetric] by blast+
  have "list_all (\<lambda>b. 0 < blk_size b) mid"
    using pos fit by (simp add: mid_def A_def R_def blk_simps)
  moreover from allpos have "list_all (\<lambda>b. 0 < blk_size b) xs" "list_all (\<lambda>b. 0 < blk_size b) ys"
    by (subst (asm) L, simp)+
  ultimately have r5: "list_all (\<lambda>b. 0 < blk_size b) (xs @ mid @ ys)"
    by simp
  from r1 r5 have "sorted_wrt (<) (map blk_start (xs @ mid @ ys))"
    by (rule chain_positive_strict)
  with mset have "py_sorted m3 = Inr (xs @ mid @ ys)"
    by (rule py_sorted_candidate)
  with alloc have res: "dynamic_allocate s pid r strategy =
      Inr (True, s\<lparr>dy_memory := xs @ mid @ ys\<rparr>)"
    by simp
  have "dynamic_inv (s\<lparr>dy_memory := xs @ mid @ ys\<rparr>)"
    using r1 r2 r3 r4 r5 h e mid(1) by (simp add: dynamic_inv_def)
  moreover have "dy_memory_size (s\<lparr>dy_memory := xs @ mid @ ys\<rparr>) = dy_memory_size s"
    by simp
  ultimately show ?thesis using res by blast
qed

lemma dynamic_run_inv:
  assumes "dynamic_inv s" "list_all positive_request ops"
  shows "\<exists>s'. dynamic_run s ops = Inr s' \<and> dynamic_inv s' \<and>
              dy_memory_size s' = dy_memory_size s"
  using assms
proof (induction ops arbitrary: s)
  case Nil
  then show ?case by simp
next
  case (Cons op ops)
  have "\<exists>s1. dynamic_step s op = Inr s1 \<and> dynamic_inv s1 \<and>
      dy_memory_size s1 = dy_memory_size s"
  proof (cases op)
    case (DAllocate pid r strategy)
    with Cons.prems(2) have "0 < r" by simp
    from dynamic_allocate_inv [OF Cons.prems(1) this, of pid strategy]
    obtain b s1 where "dynamic_allocate s pid r strategy = Inr (b, s1)" "dynamic_inv s1"
      "dy_memory_size s1 = dy_memory_size s" by blast
    with DAllocate show ?thesis by simp
  next
    case (DDeallocate pid)
    with dynamic_deallocate_inv [OF Cons.prems(1), of pid] show ?thesis by simp
  qed
  then obtain s1 where s1: "dynamic_step s op = Inr s1" "dynamic_inv s1"
    "dy_memory_size s1 = dy_memory_size s" by blast
  from Cons.prems(2) have "list_all positive_request ops" by simp
  from Cons.IH [OF s1(2) this] s1(1,3) show ?case by simp
qed

lemma dynamic_init_inv: "dynamic_inv (dynamic_init m)"
  by (simp add: dynamic_inv_def dynamic_init_def spec_chain_def spec_no_adjacent_free_def
      blk_simps)

lemma chain_sum:
  assumes "bs \<noteq> []" "spec_chain bs"
  shows "blk_start (last bs) + blk_size (last bs) =
         blk_start (hd bs) + sum_list (map blk_size bs)"
proof (cases bs)
  case Nil
  with assms show ?thesis by simp
next
  case (Cons b xs)
  with chain_end [of b xs] assms(2) show ?thesis by simp
qed



text \<open>
  Claim C3.  \<open>DynamicMemoryAllocation.deallocate(pid)\<close> relabels every block of \<open>pid\<close>
  as free and leaves the others, sorts the blocks, and replaces every maximal run of
  adjacent free blocks by one free block whose size is the sum of the run, so that no
  two neighbours of the result are free.  On a block list with strictly increasing
  starts the sort changes nothing.  With memory size 100, after \<open>allocate(1, 30)\<close>,
  \<open>allocate(2, 30)\<close>, \<open>allocate(3, 40)\<close>, \<open>deallocate(1)\<close> and \<open>deallocate(2)\<close> the
  block list is one free block of size 60 at 0 followed by the block of process 3.
\<close>

theorem dynamic_deallocate_coalesces:
  assumes "py_sorted (map (relabel pid) (dy_memory s)) = Inr bs"
  shows
    "(\<forall>b. relabel pid b =
           (if blk_pid b = Some pid then (blk_start b, blk_size b, None) else b)) \<and>
     dynamic_deallocate s pid = Inr (s\<lparr>dy_memory := spec_coalesce bs\<rparr>) \<and>
     spec_no_adjacent_free (spec_coalesce bs) \<and>
     (sorted_wrt (<) (map blk_start (dy_memory s)) \<longrightarrow>
        bs = map (relabel pid) (dy_memory s)) \<and>
     dynamic_run (dynamic_init 100)
        [DAllocate 1 30 ''first_fit'', DAllocate 2 30 ''first_fit'', DAllocate 3 40 ''first_fit'',
         DDeallocate 1, DDeallocate 2] =
       Inr (dynamic100 [(0, 60, None), (60, 40, Some 3)])"
proof (intro conjI allI impI)
  fix b
  show "relabel pid b = (if blk_pid b = Some pid then (blk_start b, blk_size b, None) else b)"
    by (cases b) (simp add: relabel_def blk_simps)
next
  from assms show "dynamic_deallocate s pid = Inr (s\<lparr>dy_memory := spec_coalesce bs\<rparr>)"
    by (simp add: dynamic_deallocate_def merge_free_blocks_def merge_pass_coalesce)
next
  show "spec_no_adjacent_free (spec_coalesce bs)"
    by (rule coalesce_no_adjacent_free)
next
  assume "sorted_wrt (<) (map blk_start (dy_memory s))"
  then have "sorted_wrt (<) (map blk_start (map (relabel pid) (dy_memory s)))"
    by (simp only: relabel_starts)
  then have "py_sorted (map (relabel pid) (dy_memory s)) = Inr (map (relabel pid) (dy_memory s))"
    by (intro py_sorted_candidate) simp_all
  with assms show "bs = map (relabel pid) (dy_memory s)" by simp
next
  show "dynamic_run (dynamic_init 100)
        [DAllocate 1 30 ''first_fit'', DAllocate 2 30 ''first_fit'', DAllocate 3 40 ''first_fit'',
         DDeallocate 1, DDeallocate 2] =
       Inr (dynamic100 [(0, 60, None), (60, 40, Some 3)])"
    by code_simp
qed

theorem dynamic_deallocate_coalesces_witness:
  "py_sorted (map (relabel 1)
      (dy_memory (dynamic100 [(0, 10, None), (10, 20, Some 1), (30, 5, Some 1), (35, 5, None),
                              (40, 60, Some 2)]))) =
     Inr [(0, 10, None), (10, 20, None), (30, 5, None), (35, 5, None), (40, 60, Some 2)] \<and>
   dynamic_deallocate
      (dynamic100 [(0, 10, None), (10, 20, Some 1), (30, 5, Some 1), (35, 5, None),
                   (40, 60, Some 2)]) 1 =
     Inr (dynamic100 [(0, 40, None), (40, 60, Some 2)])"
proof -
  let ?s = "dynamic100 [(0, 10, None), (10, 20, Some 1), (30, 5, Some 1), (35, 5, None),
                        (40, 60, Some 2)]"
  let ?bs = "[(0, 10, None), (10, 20, None), (30, 5, None), (35, 5, None), (40, 60, Some 2)]
             :: block list"
  have p: "py_sorted (map (relabel 1) (dy_memory ?s)) = Inr ?bs" by code_simp
  have c: "spec_coalesce ?bs = [(0, 40, None), (40, 60, Some 2)]" by code_simp
  from dynamic_deallocate_coalesces [OF p]
  have "dynamic_deallocate ?s 1 = Inr (?s\<lparr>dy_memory := spec_coalesce ?bs\<rparr>)" by blast
  with p show ?thesis by (simp add: c)
qed

text \<open>
  Claim C4.  After any sequence of \<open>allocate\<close> calls with a positive size and
  \<open>deallocate\<close> calls on a DynamicMemoryAllocation, started from the single free block,
  every call has returned and the block list tiles \<open>[0, memory_size)\<close>: it is not empty,
  its first block starts at 0, each block starts where its predecessor ends, the sizes
  add up to \<open>memory_size\<close>, and the starts are sorted and pairwise different; for a
  positive \<open>memory_size\<close> every block has a positive size.
\<close>

theorem dynamic_blocks_tile:
  assumes "list_all positive_request ops"
  shows "\<exists>s. dynamic_run (dynamic_init memory_size) ops = Inr s \<and>
           dy_memory_size s = memory_size \<and>
           dy_memory s \<noteq> [] \<and>
           blk_start (hd (dy_memory s)) = 0 \<and>
           (\<forall>i. Suc i < length (dy_memory s) \<longrightarrow>
                blk_start (dy_memory s ! Suc i) =
                  blk_start (dy_memory s ! i) + blk_size (dy_memory s ! i)) \<and>
           sum_list (map blk_size (dy_memory s)) = memory_size \<and>
           sorted (map blk_start (dy_memory s)) \<and>
           distinct (map blk_start (dy_memory s)) \<and>
           (0 < memory_size \<longrightarrow> list_all (\<lambda>b. 0 < blk_size b) (dy_memory s))"
proof -
  from dynamic_run_inv [OF dynamic_init_inv assms, of memory_size]
  obtain s where run: "dynamic_run (dynamic_init memory_size) ops = Inr s"
    and inv: "dynamic_inv s" and m: "dy_memory_size s = memory_size"
    by (auto simp: dynamic_init_def)
  let ?L = "dy_memory s"
  from inv have ne: "?L \<noteq> []" and h: "blk_start (hd ?L) = 0" and c: "spec_chain ?L"
    and e: "blk_start (last ?L) + blk_size (last ?L) = dy_memory_size s"
    and d: "?L = [(0, dy_memory_size s, None)] \<or> list_all (\<lambda>b. 0 < blk_size b) ?L"
    by (simp_all add: dynamic_inv_def)
  have nth: "\<forall>i. Suc i < length ?L \<longrightarrow>
      blk_start (?L ! Suc i) = blk_start (?L ! i) + blk_size (?L ! i)"
    using c by (auto simp: spec_chain_def dest: successively_nth)
  from chain_sum [OF ne c] h e m have sum: "sum_list (map blk_size ?L) = memory_size"
    by simp
  from inv_strict [OF inv] have st: "sorted (map blk_start ?L)" "distinct (map blk_start ?L)"
    by (simp_all add: strict_sorted_iff)
  have pos: "0 < memory_size \<longrightarrow> list_all (\<lambda>b. 0 < blk_size b) ?L"
    using d m by (auto simp: blk_simps)
  from run m ne h nth sum st pos show ?thesis by blast
qed

theorem dynamic_blocks_tile_witness:
  "list_all positive_request
     [DAllocate 1 30 ''first_fit'', DAllocate 2 30 ''best_fit'', DDeallocate 1,
      DAllocate 3 20 ''worst_fit''] \<and>
   (\<exists>s. dynamic_run (dynamic_init 100)
           [DAllocate 1 30 ''first_fit'', DAllocate 2 30 ''best_fit'', DDeallocate 1,
            DAllocate 3 20 ''worst_fit''] = Inr s \<and>
        blk_start (hd (dy_memory s)) = 0 \<and>
        sum_list (map blk_size (dy_memory s)) = 100 \<and>
        sorted (map blk_start (dy_memory s)))"
proof -
  have p: "list_all positive_request
     [DAllocate 1 30 ''first_fit'', DAllocate 2 30 ''best_fit'', DDeallocate 1,
      DAllocate 3 20 ''worst_fit'']" by simp
  from dynamic_blocks_tile [OF p, of 100] p show ?thesis by blast
qed


section \<open>Deallocating a process that holds nothing\<close>

lemma clear_fold_absent:
  assumes "Some pid \<notin> set ps" "\<forall>i \<in> set js. i < length ps"
  shows "fold (\<lambda>i qs. if qs ! i = Some pid then qs[i := None] else qs) js ps = ps"
  using assms(2)
proof (induction js)
  case Nil
  then show ?case by simp
next
  case (Cons j js)
  then have "j < length ps" by simp
  then have "ps ! j \<in> set ps" by (rule nth_mem)
  with assms(1) have "ps ! j \<noteq> Some pid" by metis
  with Cons show ?case by simp
qed

lemma fixed_deallocate_absent:
  "Some pid \<notin> set (fx_partitions s) \<Longrightarrow> fixed_deallocate s pid = s"
  by (simp add: fixed_deallocate_def clear_fold_absent)

lemma unequal_deallocate_absent:
  "Some pid \<notin> set (uq_allocated s) \<Longrightarrow> unequal_deallocate s pid = s"
  by (simp add: unequal_deallocate_def clear_fold_absent)

lemma paging_deallocate_absent:
  "\<forall>key \<in> set (map fst (pg_page_table s)). fst key \<noteq> pid \<Longrightarrow> paging_deallocate s pid = s"
  by (simp add: paging_deallocate_def dealloc_fold_absent)

lemma dynamic_reachable_deallocate_absent:
  assumes "list_all positive_request ops" "dynamic_run (dynamic_init m) ops = Inr s"
    and "\<forall>b \<in> set (dy_memory s). blk_pid b \<noteq> Some pid"
  shows "dynamic_deallocate s pid = Inr s"
proof -
  from dynamic_run_inv [OF dynamic_init_inv assms(1), of m] assms(2)
  have "dynamic_inv s" by auto
  then show ?thesis using assms(3) by (rule dynamic_deallocate_absent)
qed

text \<open>
  Claim C9.  Deallocating a process id that tags no partition, block or page-table entry
  returns and leaves the state as it was: for FixedSizedPartitioning,
  UnequalSizedPartitioning and Paging in every state, for DynamicMemoryAllocation in
  every state reached from the initial block by \<open>allocate\<close> calls of positive size and
  \<open>deallocate\<close> calls (there the block list is sorted and fully merged, so the merge pass
  returns it as it is).  After \<open>allocate\<close> calls of negative size the block list of a
  DynamicMemoryAllocation can hold two neighbouring free blocks, and \<open>deallocate\<close> of an
  absent id then merges them.
\<close>

theorem deallocate_absent_noop:
  "(Some pid \<notin> set (fx_partitions fs) \<longrightarrow> fixed_deallocate fs pid = fs) \<and>
   (Some pid \<notin> set (uq_allocated us) \<longrightarrow> unequal_deallocate us pid = us) \<and>
   (list_all positive_request ops \<and> dynamic_run (dynamic_init memory_size) ops = Inr ds \<and>
      (\<forall>b \<in> set (dy_memory ds). blk_pid b \<noteq> Some pid) \<longrightarrow>
        dynamic_deallocate ds pid = Inr ds) \<and>
   ((\<forall>key \<in> set (map fst (pg_page_table ps)). fst key \<noteq> pid) \<longrightarrow>
        paging_deallocate ps pid = ps)"
  using fixed_deallocate_absent [of pid fs] unequal_deallocate_absent [of pid us]
    dynamic_reachable_deallocate_absent [of ops memory_size ds pid]
    paging_deallocate_absent [of ps pid]
  by blast

theorem deallocate_absent_noop_witness:
  "list_all positive_request
     [DAllocate 1 30 ''first_fit'', DAllocate 2 30 ''first_fit'', DDeallocate 1] \<and>
   dynamic_run (dynamic_init 100)
     [DAllocate 1 30 ''first_fit'', DAllocate 2 30 ''first_fit'', DDeallocate 1] =
     Inr (dynamic100 [(0, 30, None), (30, 30, Some 2), (60, 40, None)]) \<and>
   dynamic_deallocate (dynamic100 [(0, 30, None), (30, 30, Some 2), (60, 40, None)]) 7 =
     Inr (dynamic100 [(0, 30, None), (30, 30, Some 2), (60, 40, None)]) \<and>
   fixed_deallocate (fixed100 [Some 1, None, Some 2]) 7 = fixed100 [Some 1, None, Some 2] \<and>
   unequal_deallocate \<lparr>uq_partitions = [10, 20], uq_allocated = [Some 1, None]\<rparr> 7 =
     \<lparr>uq_partitions = [10, 20], uq_allocated = [Some 1, None]\<rparr> \<and>
   paging_deallocate (paging40 [((1, 0), 0), ((2, 0), 1)]) 7 = paging40 [((1, 0), 0), ((2, 0), 1)]"
proof -
  let ?ops = "[DAllocate 1 30 ''first_fit'', DAllocate 2 30 ''first_fit'', DDeallocate 1]"
  let ?ds = "dynamic100 [(0, 30, None), (30, 30, Some 2), (60, 40, None)]"
  let ?fs = "fixed100 [Some 1, None, Some 2]"
  let ?us = "\<lparr>uq_partitions = [10, 20], uq_allocated = [Some 1, None]\<rparr>"
  let ?ps = "paging40 [((1, 0), 0), ((2, 0), 1)]"
  have p: "list_all positive_request ?ops" by simp
  have r: "dynamic_run (dynamic_init 100) ?ops = Inr ?ds" by code_simp
  have a: "\<forall>b \<in> set (dy_memory ?ds). blk_pid b \<noteq> Some 7" by (simp add: blk_simps)
  have f: "Some 7 \<notin> set (fx_partitions ?fs)" by simp
  have u: "Some 7 \<notin> set (uq_allocated ?us)" by simp
  have g: "\<forall>key \<in> set (map fst (pg_page_table ?ps)). fst key \<noteq> 7" by simp
  from deallocate_absent_noop [of 7 ?fs ?us ?ops 100 ?ds ?ps] p r a f u g
  have "dynamic_deallocate ?ds 7 = Inr ?ds" "fixed_deallocate ?fs 7 = ?fs"
    "unequal_deallocate ?us 7 = ?us" "paging_deallocate ?ps 7 = ?ps"
    by blast+
  with p r show ?thesis by blast
qed

theorem deallocate_absent_noop_counterexample:
  "dynamic_run (dynamic_init 100)
     [DAllocate 1 (- 5) ''first_fit'', DAllocate 2 (- 5) ''first_fit'', DDeallocate 1,
      DAllocate 3 (- 7) ''best_fit''] =
     Inr (dynamic100 [(- 10, 110, None), (- 7, 2, None), (- 5, - 5, Some 2), (0, - 7, Some 3)]) \<and>
   list_all (\<lambda>b. blk_pid b \<noteq> Some 99)
     (dy_memory (dynamic100 [(- 10, 110, None), (- 7, 2, None), (- 5, - 5, Some 2),
                             (0, - 7, Some 3)])) \<and>
   dynamic_deallocate
     (dynamic100 [(- 10, 110, None), (- 7, 2, None), (- 5, - 5, Some 2), (0, - 7, Some 3)]) 99 =
     Inr (dynamic100 [(- 10, 112, None), (- 5, - 5, Some 2), (0, - 7, Some 3)]) \<and>
   dynamic_deallocate
     (dynamic100 [(- 10, 110, None), (- 7, 2, None), (- 5, - 5, Some 2), (0, - 7, Some 3)]) 99 \<noteq>
     Inr (dynamic100 [(- 10, 110, None), (- 7, 2, None), (- 5, - 5, Some 2), (0, - 7, Some 3)])"
proof -
  have d: "dynamic_deallocate
     (dynamic100 [(- 10, 110, None), (- 7, 2, None), (- 5, - 5, Some 2), (0, - 7, Some 3)]) 99 =
     Inr (dynamic100 [(- 10, 112, None), (- 5, - 5, Some 2), (0, - 7, Some 3)])"
    by code_simp
  have r: "dynamic_run (dynamic_init 100)
     [DAllocate 1 (- 5) ''first_fit'', DAllocate 2 (- 5) ''first_fit'', DDeallocate 1,
      DAllocate 3 (- 7) ''best_fit''] =
     Inr (dynamic100 [(- 10, 110, None), (- 7, 2, None), (- 5, - 5, Some 2), (0, - 7, Some 3)])"
    by code_simp
  show ?thesis
    unfolding d using r by (simp add: blk_simps)
qed


section \<open>A failed allocation changes nothing\<close>

lemma split_loop_total:
  assumes "0 \<le> rsize"
  shows "\<exists>fb'. split_loop fb address current_size rsize = Some fb'"
proof (induction "nat current_size" arbitrary: current_size fb rule: less_induct)
  case less
  show ?case
  proof (cases "rsize < current_size")
    case True
    with assms have "nat (current_size div 2) < nat current_size" by simp
    from less [OF this] obtain fb' where
      "split_loop (setdefault_append fb (current_size div 2) (address + current_size div 2))
         address (current_size div 2) rsize = Some fb'"
      by blast
    with True show ?thesis by (subst split_loop.simps) simp
  next
    case False
    then show ?thesis by (subst split_loop.simps) simp
  qed
qed

lemma next_power_of_two_pos: "1 \<le> next_power_of_two x"
  by (simp add: next_power_of_two_def)

lemma buddy_allocate_total:
  "\<exists>a s'. buddy_allocate s pid r = Some (a, s') \<and> (a = None \<longrightarrow> s' = s)"
proof -
  let ?z = "next_power_of_two r"
  let ?fb = "bd_free_blocks s"
  have z: "0 \<le> ?z" using next_power_of_two_pos [of r] by simp
  show ?thesis
  proof (cases "find (\<lambda>current_size. current_size \<ge> ?z \<and> bucket ?fb current_size \<noteq> [])
                  (sort (map fst ?fb))")
    case None
    then show ?thesis by (simp add: buddy_allocate_def)
  next
    case (Some cs)
    let ?fb1 = "AList.update cs (tl (bucket ?fb cs)) ?fb"
    let ?fb2 = "if bucket ?fb1 cs = [] then AList.delete cs ?fb1 else ?fb1"
    from split_loop_total [OF z, of ?fb2 "hd (bucket ?fb cs)" cs]
    obtain fb3 where "split_loop ?fb2 (hd (bucket ?fb cs)) cs ?z = Some fb3" by blast
    with Some show ?thesis by (simp add: buddy_allocate_def Let_def)
  qed
qed

text \<open>
  Claim C10.  When \<open>allocate\<close> fails, the state is the one before the call:
  \<open>UnequalSizedPartitioning.allocate\<close> and \<open>DynamicMemoryAllocation.allocate\<close> returning
  \<open>False\<close>, and \<open>BuddySystem.allocate\<close>, which always returns, returning no address.
\<close>

theorem failed_allocate_unchanged:
  "(\<not> fst (unequal_allocate us pid r strategy) \<longrightarrow>
      snd (unequal_allocate us pid r strategy) = us) \<and>
   (\<forall>s'. dynamic_allocate ds pid r strategy = Inr (False, s') \<longrightarrow> s' = ds) \<and>
   (\<exists>a s'. buddy_allocate bs pid r = Some (a, s') \<and> (a = None \<longrightarrow> s' = bs))"
proof (intro conjI allI impI)
  assume "\<not> fst (unequal_allocate us pid r strategy)"
  then show "snd (unequal_allocate us pid r strategy) = us"
    by (simp add: unequal_allocate_def split: option.splits)
next
  fix s'
  assume "dynamic_allocate ds pid r strategy = Inr (False, s')"
  then show "s' = ds"
    by (simp add: dynamic_allocate_def Let_def split: option.splits sum.splits)
next
  show "\<exists>a s'. buddy_allocate bs pid r = Some (a, s') \<and> (a = None \<longrightarrow> s' = bs)"
    by (rule buddy_allocate_total)
qed


theorem failed_allocate_unchanged_witness:
  "\<not> fst (unequal_allocate (unequal_init [10, 20]) 1 200 ''best_fit'') \<and>
   snd (unequal_allocate (unequal_init [10, 20]) 1 200 ''best_fit'') = unequal_init [10, 20] \<and>
   dynamic_allocate (dynamic_init 100) 1 200 ''best_fit'' = Inr (False, dynamic_init 100) \<and>
   buddy_allocate (buddy64 [(16, [16])]) 1 200 = Some (None, buddy64 [(16, [16])])"
proof -
  have u: "\<not> fst (unequal_allocate (unequal_init [10, 20]) 1 200 ''best_fit'')"
    by code_simp
  have d: "dynamic_allocate (dynamic_init 100) 1 200 ''best_fit'' =
      Inr (False, snd (projr (dynamic_allocate (dynamic_init 100) 1 200 ''best_fit'')))"
    by code_simp
  have b: "fst (the (buddy_allocate (buddy64 [(16, [16])]) 1 200)) = None"
    by code_simp
  note t = failed_allocate_unchanged [of "unequal_init [10, 20]" 1 200 "''best_fit''"
      "dynamic_init 100" "buddy64 [(16, [16])]"]
  from t u have 1: "snd (unequal_allocate (unequal_init [10, 20]) 1 200 ''best_fit'') =
      unequal_init [10, 20]" by blast
  from t d have "snd (projr (dynamic_allocate (dynamic_init 100) 1 200 ''best_fit'')) =
      dynamic_init 100" by blast
  with d have 2: "dynamic_allocate (dynamic_init 100) 1 200 ''best_fit'' =
      Inr (False, dynamic_init 100)" by simp
  from t obtain a s' where a: "buddy_allocate (buddy64 [(16, [16])]) 1 200 = Some (a, s')"
    and n: "a = None \<longrightarrow> s' = buddy64 [(16, [16])]" by blast
  from a b have "a = None" by simp
  with a n have 3: "buddy_allocate (buddy64 [(16, [16])]) 1 200 = Some (None, buddy64 [(16, [16])])"
    by simp
  from u 1 2 3 show ?thesis by blast
qed


section \<open>BuddySystem: rounding, merging upward, and the buckets left behind\<close>

lemma bucket_update: "bucket (AList.update k v fb) = (bucket fb)(k := v)"
  by (rule ext) (simp add: bucket_def update_conv')

lemma bucket_setdefault:
  "bucket (setdefault_append fb k a) = (bucket fb)(k := bucket fb k @ [a])"
  by (simp add: setdefault_append_def bucket_update)

lemma dealloc_loop_refines:
  "spec_merge_up msize (bucket fb) address z (bucket (dealloc_loop msize fb address z))"
proof (induction msize fb address z rule: dealloc_loop.induct)
  case (1 msize fb address z)
  show ?case
  proof (cases "z \<le> msize")
    case le: True
    show ?thesis
    proof (cases "address XOR z \<in> set (bucket fb z)")
      case True
      from "1.IH" [OF le True]
      have "spec_merge_up msize ((bucket fb)(z := remove1 (address XOR z) (bucket fb z)))
          (min address (address XOR z)) (z * 2)
          (bucket (dealloc_loop msize
             (AList.update z (remove1 (address XOR z) (bucket fb z)) fb)
             (min address (address XOR z)) (z * 2)))"
        unfolding bucket_update .
      then have "spec_merge_up msize (bucket fb) address z
          (bucket (dealloc_loop msize
             (AList.update z (remove1 (address XOR z) (bucket fb z)) fb)
             (min address (address XOR z)) (z * 2)))"
        using le True
        by (intro spec_merge_up.merge [where buckets = "bucket fb" and current_size = z])
      with le True show ?thesis
        by (subst dealloc_loop.simps) simp
    next
      case False
      have "spec_merge_up msize (bucket fb) address z ((bucket fb)(z := bucket fb z @ [address]))"
        using le False
        by (intro spec_merge_up.absent [where buckets = "bucket fb" and current_size = z])
      with le False show ?thesis
        by (subst dealloc_loop.simps) (simp add: bucket_setdefault)
    qed
  next
    case False
    then have "dealloc_loop msize fb address z = fb"
      by (subst dealloc_loop.simps) simp
    with False show ?thesis
      by (simp add: spec_merge_up.exceed)
  qed
qed

lemma bit_length_nat_bounds:
  "n < 2 ^ bit_length_nat n \<and> (0 < n \<longrightarrow> 2 ^ bit_length_nat n \<le> 2 * n)"
proof (induction n rule: bit_length_nat.induct)
  case (1 n)
  show ?case
  proof (cases "n = 0")
    case True
    then show ?thesis by (subst bit_length_nat.simps) simp
  next
    case False
    from "1.IH" [OF False] have a: "n div 2 < 2 ^ bit_length_nat (n div 2)"
      and b: "0 < n div 2 \<longrightarrow> 2 ^ bit_length_nat (n div 2) \<le> 2 * (n div 2)"
      by blast+
    have e: "bit_length_nat n = Suc (bit_length_nat (n div 2))"
      using False by (subst bit_length_nat.simps) simp
    have "n < 2 * 2 ^ bit_length_nat (n div 2)"
      using a by linarith
    moreover have "2 * 2 ^ bit_length_nat (n div 2) \<le> 2 * n"
    proof (cases "0 < n div 2")
      case True
      with b have "2 ^ bit_length_nat (n div 2) \<le> 2 * (n div 2)" by blast
      then show ?thesis by linarith
    next
      case z: False
      then have "n div 2 = 0" by simp
      then have "bit_length_nat (n div 2) = 0" by (subst bit_length_nat.simps) simp
      with False show ?thesis by simp
    qed
    ultimately show ?thesis by (simp add: e)
  qed
qed

lemma next_power_of_two_bounds:
  assumes "1 \<le> r"
  shows "r \<le> next_power_of_two r \<and> next_power_of_two r < 2 * r"
proof -
  define n where "n = nat (r - 1)"
  from assms have r: "r = int n + 1" by (simp add: n_def)
  have np: "next_power_of_two r = 2 ^ bit_length_nat n"
    using assms by (simp add: next_power_of_two_def bit_length_def n_def)
  from bit_length_nat_bounds [of n] have a: "n < 2 ^ bit_length_nat n"
    and b: "0 < n \<longrightarrow> 2 ^ bit_length_nat n \<le> 2 * n" by blast+
  from a have "int n < 2 ^ bit_length_nat n"
    by (metis of_nat_less_iff of_nat_numeral of_nat_power)
  then have 1: "r \<le> next_power_of_two r" unfolding np using r by linarith
  have 2: "next_power_of_two r < 2 * r"
  proof (cases "0 < n")
    case True
    with b have "(2::nat) ^ bit_length_nat n \<le> 2 * n" by blast
    then have "(2::int) ^ bit_length_nat n \<le> 2 * int n"
      by (metis of_nat_le_iff of_nat_mult of_nat_numeral of_nat_power)
    then show ?thesis unfolding np using r by linarith
  next
    case False
    then have "n = 0" by simp
    then have "bit_length_nat n = 0" by (subst bit_length_nat.simps) simp
    with \<open>n = 0\<close> show ?thesis unfolding np using r by simp
  qed
  from 1 2 show ?thesis by blast
qed

text \<open>
  Claim C5.  \<open>BuddySystem.deallocate(address, size)\<close> rounds the size up to
  \<open>next_power_of_two(size)\<close>: a power of two, at least the size and less than twice the
  size for a size of at least 1.  It then merges upward as \<open>spec_merge_up\<close> says: the
  buddy is \<open>address XOR current_size\<close>; while it is in the bucket of the current size it
  is removed, the address becomes the minimum of the two and the size doubles; the
  address is added to the bucket of the current size as soon as the buddy is absent.
  When the current size exceeds total memory the loop ends and nothing is added; in
  particular a rounded size above total memory leaves the state as it was.
\<close>

theorem buddy_deallocate_merges_up:
  "spec_merge_up (bd_size s) (bucket (bd_free_blocks s)) address (next_power_of_two r)
     (bucket (bd_free_blocks (buddy_deallocate s address r))) \<and>
   bd_size (buddy_deallocate s address r) = bd_size s \<and>
   (1 \<le> r \<longrightarrow> r \<le> next_power_of_two r \<and> next_power_of_two r < 2 * r) \<and>
   (\<exists>n. next_power_of_two r = 2 ^ n) \<and>
   (bd_size s < next_power_of_two r \<longrightarrow> buddy_deallocate s address r = s)"
proof (intro conjI impI)
  show "spec_merge_up (bd_size s) (bucket (bd_free_blocks s)) address (next_power_of_two r)
     (bucket (bd_free_blocks (buddy_deallocate s address r)))"
    by (simp add: buddy_deallocate_def dealloc_loop_refines)
  show "bd_size (buddy_deallocate s address r) = bd_size s"
    by (simp add: buddy_deallocate_def)
  show "\<exists>n. next_power_of_two r = 2 ^ n"
    by (auto simp: next_power_of_two_def)
next
  assume "1 \<le> r"
  then show "r \<le> next_power_of_two r" "next_power_of_two r < 2 * r"
    using next_power_of_two_bounds [of r] by blast+
next
  assume "bd_size s < next_power_of_two r"
  then have "dealloc_loop (bd_size s) (bd_free_blocks s) address (next_power_of_two r) =
      bd_free_blocks s"
    by (subst dealloc_loop.simps) simp
  then show "buddy_deallocate s address r = s"
    by (simp add: buddy_deallocate_def)
qed

theorem buddy_deallocate_merges_up_witness:
  "(1::int) \<le> 5 \<and> next_power_of_two 5 = 8 \<and>
   buddy_deallocate (buddy64 [(32, [32]), (16, [16]), (8, [8])]) 0 5 =
     buddy64 [(32, []), (16, []), (8, []), (64, [0])] \<and>
   spec_merge_up 64 (bucket [(32, [32]), (16, [16]), (8, [8])]) 0 8
     (bucket [(32, []), (16, []), (8, []), (64, [0])])"
proof -
  let ?s = "buddy64 [(32, [32]), (16, [16]), (8, [8])]"
  have n: "next_power_of_two 5 = 8" by code_simp
  have d: "buddy_deallocate ?s 0 5 = buddy64 [(32, []), (16, []), (8, []), (64, [0])]"
    by code_simp
  from buddy_deallocate_merges_up [of ?s 0 5]
  have "spec_merge_up (bd_size ?s) (bucket (bd_free_blocks ?s)) 0 (next_power_of_two 5)
     (bucket (bd_free_blocks (buddy_deallocate ?s 0 5)))"
    by blast
  then have "spec_merge_up 64 (bucket [(32, [32]), (16, [16]), (8, [8])]) 0 8
     (bucket [(32, []), (16, []), (8, []), (64, [0])])"
    unfolding n d by simp
  with n d show ?thesis by simp
qed

theorem buddy_deallocate_merges_up_counterexample:
  "buddy_deallocate (buddy_init 64) 64 64 = buddy64 [(64, [])] \<and>
   \<not> (\<exists>k. 0 \<in> set (bucket (bd_free_blocks (buddy_deallocate (buddy_init 64) 64 64)) k)) \<and>
   buddy_allocate (buddy_init 64) 1 64 = Some (Some 0, buddy64 []) \<and>
   buddy_deallocate (buddy64 []) 0 65 = buddy64 [] \<and>
   \<not> (\<exists>k. 0 \<in> set (bucket (bd_free_blocks (buddy_deallocate (buddy64 []) 0 65)) k))"
proof -
  have a: "buddy_deallocate (buddy_init 64) 64 64 = buddy64 [(64, [])]" by code_simp
  have b: "buddy_allocate (buddy_init 64) 1 64 = Some (Some 0, buddy64 [])" by code_simp
  have c: "buddy_deallocate (buddy64 []) 0 65 = buddy64 []" by code_simp
  show ?thesis
    unfolding a c using b by (simp add: bucket_def)
qed

text \<open>
  Claim C2.  On a BuddySystem of size 64, \<open>allocate(1, 5)\<close> rounds 5 to 8 and returns
  address 0, leaving the upper halves 32, 16 and 8 free; \<open>deallocate(0, 8)\<close> then merges
  up to size 64 and adds address 0 to the bucket of 64.  The contents of every bucket
  are those of a new BuddySystem, but \<open>free_blocks\<close> keeps the keys 32, 16 and 8 with
  empty lists, so the dict is not \<open>{64: [0]}\<close>.
\<close>

theorem buddy_round_trip_keeps_empty_buckets:
  "next_power_of_two 5 = 8 \<and>
   buddy_allocate (buddy_init 64) 1 5 =
     Some (Some 0, buddy64 [(32, [32]), (16, [16]), (8, [8])]) \<and>
   buddy_deallocate (buddy64 [(32, [32]), (16, [16]), (8, [8])]) 0 8 =
     buddy64 [(32, []), (16, []), (8, []), (64, [0])] \<and>
   map_of [(32, []), (16, []), (8, []), (64, [0::int])] (8::int) = Some [] \<and>
   map_of (bd_free_blocks (buddy_init 64)) 8 = None \<and>
   map_of [(32, []), (16, []), (8, []), (64, [0::int])] \<noteq> map_of (bd_free_blocks (buddy_init 64)) \<and>
   (\<forall>k. bucket [(32, []), (16, []), (8, []), (64, [0])] k = bucket (bd_free_blocks (buddy_init 64)) k)"
proof -
  have 1: "next_power_of_two 5 = 8" by code_simp
  have 2: "buddy_allocate (buddy_init 64) 1 5 =
     Some (Some 0, buddy64 [(32, [32]), (16, [16]), (8, [8])])" by code_simp
  have 3: "buddy_deallocate (buddy64 [(32, [32]), (16, [16]), (8, [8])]) 0 8 =
     buddy64 [(32, []), (16, []), (8, []), (64, [0])]" by code_simp
  have 4: "map_of [(32, []), (16, []), (8, []), (64, [0::int])] (8::int) = Some []" by simp
  have 5: "map_of (bd_free_blocks (buddy_init 64)) 8 = None" by (simp add: buddy_init_def)
  from 4 5 have 6: "map_of [(32, []), (16, []), (8, []), (64, [0::int])] \<noteq>
      map_of (bd_free_blocks (buddy_init 64))"
    by (metis option.distinct(1))
  have 7: "\<forall>k. bucket [(32, []), (16, []), (8, []), (64, [0])] k =
      bucket (bd_free_blocks (buddy_init 64)) k"
    by (simp add: bucket_def buddy_init_def)
  from 1 2 3 4 5 6 7 show ?thesis by blast
qed


end
